theory Spec2Isabelle
  imports Complex_Main "HOL-Library.Multiset"
begin

section \<open>The binary-heap priority queue of Assignment 6 (HeapPQueue)\<close>

text \<open>
  The embedding follows \<^verbatim>\<open>Assignment 6/code/HeapPQueue.h\<close> and the implementation
  file stored behind it, method by method.

  \<^item> The C++ \<^verbatim>\<open>int\<close> members \<^verbatim>\<open>currentSize\<close> and \<^verbatim>\<open>capacity\<close> and the index parameters are
    natural numbers: the code never makes one of them negative, and in every reachable
    state they are at most \<open>INT_MAX\<close> (\<open>reachable_int_range\<close> below). The \<^verbatim>\<open>int\<close> values
    that can leave the range of a 32-bit \<^verbatim>\<open>int\<close> are integers with the machine's behaviour
    written out: the child indices \<^verbatim>\<open>2 * index + 1\<close> and \<^verbatim>\<open>2 * index + 2\<close> wrap around
    (two's complement), and the \<^verbatim>\<open>static_cast<int>\<close> of a \<^verbatim>\<open>double\<close> that does not fit gives
    \<open>INT_MIN\<close>, the result of the conversion instruction of x86-64. C++ itself leaves
    both undefined.
  \<^item> The \<^verbatim>\<open>double\<close> members \<^verbatim>\<open>growFactor\<close> and \<^verbatim>\<open>shrinkThreshold\<close> are rationals. The
    code multiplies and divides a capacity by them only; with the values the constructor
    sets (2.0 and 0.25) these operations are exact in binary floating point.
  \<^item> \<^verbatim>\<open>error(msg)\<close> of the course library throws: a method that calls it returns the
    error and the state it had at that moment.
  \<^item> The buffer \<^verbatim>\<open>heap\<close> is a list with one entry per allocated slot. Slots at and
    after \<^verbatim>\<open>currentSize\<close> keep whatever was written there last, as in the code. Every
    read and write of a slot is checked against the buffer: an access outside it, which
    C++ leaves undefined, ends the method with \<open>OutOfBounds\<close>.
\<close>

subsection \<open>Data\<close>

text \<open>
  Modelled from the spec: the element type \<^verbatim>\<open>DataPoint\<close> (\<^verbatim>\<open>Demos/DataPoint.h\<close> is not
  among the sources): a pair of a name and an integer weight. The heap compares weights
  only and performs no arithmetic on them.
\<close>

record DataPoint =
  name :: string
  weight :: int

text \<open>
  Modelled from the spec: a default-constructed \<^verbatim>\<open>DataPoint\<close>, what \<^verbatim>\<open>new DataPoint[n]\<close>
  puts in each slot. In C++ its weight is indeterminate, and the model fixes the value
  \<open>0\<close>. No method reads a slot at or after \<^verbatim>\<open>currentSize\<close>: \<^verbatim>\<open>bubbleUp\<close> starts below it
  and moves towards the root, \<^verbatim>\<open>bubbleDown\<close> tests \<^verbatim>\<open>left < size\<close> and \<^verbatim>\<open>right < size\<close>
  before it reads, and \<^verbatim>\<open>peek\<close> and \<^verbatim>\<open>dequeue\<close> read the slots \<open>0\<close> and
  \<^verbatim>\<open>currentSize - 1\<close> of a queue that is not empty.
\<close>

definition default_DataPoint :: DataPoint where
  "default_DataPoint = \<lparr>name = [], weight = 0\<rparr>"

datatype error = EmptyQueueError | InvalidResizeError | OutOfBounds

record HeapPQueue =
  currentSize :: nat
  capacity :: nat
  heap :: "DataPoint list"
  growFactor :: rat
  shrinkThreshold :: rat

definition INITIAL_CAPACITY :: nat where
  "INITIAL_CAPACITY = 100"

text \<open>The constructor \<^verbatim>\<open>HeapPQueue::HeapPQueue()\<close>.\<close>

definition HeapPQueue_new :: HeapPQueue where
  "HeapPQueue_new =
     \<lparr>currentSize = 0,
      capacity = INITIAL_CAPACITY,
      heap = replicate INITIAL_CAPACITY default_DataPoint,
      growFactor = 2,
      shrinkThreshold = 1 / 4\<rparr>"

subsection \<open>Machine integers and the buffer\<close>

definition INT_MAX :: int where
  "INT_MAX = 2147483647"

definition INT_MIN :: int where
  "INT_MIN = - 2147483648"

text \<open>The value of an \<^verbatim>\<open>int\<close> expression whose mathematical value is \<open>x\<close>: modulo \<open>2^32\<close>.\<close>

definition wrap_int :: "int \<Rightarrow> int" where
  "wrap_int x = (x - INT_MIN) mod 4294967296 + INT_MIN"

text \<open>
  \<^verbatim>\<open>static_cast<int>\<close> of a \<^verbatim>\<open>double\<close>: the fractional part is discarded; a value that does
  not fit an \<^verbatim>\<open>int\<close> is converted to \<open>INT_MIN\<close>.
\<close>

definition static_cast_int :: "rat \<Rightarrow> int" where
  "static_cast_int x =
     (let t = (if 0 \<le> x then \<lfloor>x\<rfloor> else \<lceil>x\<rceil>)
      in if INT_MIN \<le> t \<and> t \<le> INT_MAX then t else INT_MIN)"

text \<open>\<^verbatim>\<open>heap[i]\<close> read, and \<^verbatim>\<open>heap[i] = v\<close>, for an \<^verbatim>\<open>int\<close> \<open>i\<close>.\<close>

definition load :: "DataPoint list \<Rightarrow> int \<Rightarrow> error + DataPoint" where
  "load h i = (if 0 \<le> i \<and> i < int (length h) then Inr (h ! nat i) else Inl OutOfBounds)"

definition store :: "DataPoint list \<Rightarrow> int \<Rightarrow> DataPoint \<Rightarrow> error + DataPoint list" where
  "store h i v = (if 0 \<le> i \<and> i < int (length h) then Inr (h[nat i := v]) else Inl OutOfBounds)"

text \<open>\<^verbatim>\<open>heap[i].weight < heap[j].weight\<close>.\<close>

definition less_at :: "DataPoint list \<Rightarrow> int \<Rightarrow> int \<Rightarrow> error + bool" where
  "less_at h i j =
     (case load h i of
        Inl e \<Rightarrow> Inl e
      | Inr a \<Rightarrow> (case load h j of Inl e \<Rightarrow> Inl e | Inr b \<Rightarrow> Inr (weight a < weight b)))"

text \<open>\<^verbatim>\<open>std::swap(heap[i], heap[j])\<close>, for two slots inside the buffer.\<close>

definition swap :: "DataPoint list \<Rightarrow> nat \<Rightarrow> nat \<Rightarrow> DataPoint list" where
  "swap h i j = h[i := h ! j, j := h ! i]"

subsection \<open>Index arithmetic\<close>

text \<open>
  \<^verbatim>\<open>(index - 1) / 2\<close> on C++ \<^verbatim>\<open>int\<close> truncates towards zero, so it is \<open>0\<close> at index \<open>0\<close>;
  the truncating subtraction of \<^typ>\<open>nat\<close> gives the same value there. It cannot
  overflow. The child indices can.
\<close>

definition parent :: "nat \<Rightarrow> nat" where
  "parent index = (index - 1) div 2"

definition leftChild :: "nat \<Rightarrow> int" where
  "leftChild index = wrap_int (2 * int index + 1)"

definition rightChild :: "nat \<Rightarrow> int" where
  "rightChild index = wrap_int (2 * int index + 2)"

subsection \<open>Queries\<close>

definition size_pq :: "HeapPQueue \<Rightarrow> nat" where
  "size_pq q = currentSize q"

definition isEmpty :: "HeapPQueue \<Rightarrow> bool" where
  "isEmpty q = (currentSize q = 0)"

text \<open>
  \<^verbatim>\<open>peek\<close> is a \<^verbatim>\<open>const\<close> method. It is given the same shape as the mutating methods, a
  result and the state after the call, so that "the state is unchanged" can be stated.
\<close>

definition peek :: "HeapPQueue \<Rightarrow> (error + DataPoint) \<times> HeapPQueue" where
  "peek q = (if isEmpty q then (Inl EmptyQueueError, q) else (load (heap q) 0, q))"

subsection \<open>Restoring the heap order\<close>

function bubbleUp :: "HeapPQueue \<Rightarrow> nat \<Rightarrow> (error + unit) \<times> HeapPQueue" where
  "bubbleUp q index =
     (if index > 0
      then (case less_at (heap q) (int index) (int (parent index)) of
              Inl e \<Rightarrow> (Inl e, q)
            | Inr lt \<Rightarrow>
                if lt
                then bubbleUp (q\<lparr>heap := swap (heap q) index (parent index)\<rparr>) (parent index)
                else (Inr (), q))
      else (Inr (), q))"
  by pat_completeness auto
termination
  by (relation "measure snd") (auto simp: parent_def)

text \<open>
  One round of the loop of \<^verbatim>\<open>bubbleDown\<close>, up to the test \<^verbatim>\<open>smallest != index\<close>: the
  index of the smallest weight among \<^verbatim>\<open>index\<close> and its children inside the live part.
  The conjunctions of the code read the buffer only when \<^verbatim>\<open>left < size\<close>, or
  \<^verbatim>\<open>right < size\<close>, holds.
\<close>

definition smallest_of :: "HeapPQueue \<Rightarrow> nat \<Rightarrow> error + nat" where
  "smallest_of q index =
     (let size = int (currentSize q);
          left = leftChild index;
          right = rightChild index;
          smallest = int index
      in case (if left < size then less_at (heap q) left smallest else Inr False) of
           Inl e \<Rightarrow> Inl e
         | Inr less_left \<Rightarrow>
             let smallest = (if less_left then left else smallest)
             in case (if right < size then less_at (heap q) right smallest else Inr False) of
                  Inl e \<Rightarrow> Inl e
                | Inr less_right \<Rightarrow> Inr (nat (if less_right then right else smallest)))"

function bubbleDown :: "HeapPQueue \<Rightarrow> nat \<Rightarrow> (error + unit) \<times> HeapPQueue" where
  "bubbleDown q index =
     (case smallest_of q index of
        Inl e \<Rightarrow> (Inl e, q)
      | Inr smallest \<Rightarrow>
          if smallest \<noteq> index
          then bubbleDown (q\<lparr>heap := swap (heap q) index smallest\<rparr>) smallest
          else (Inr (), q))"
  by pat_completeness auto
termination
proof (relation "measures [\<lambda>(q, i). if int i \<le> INT_MAX then 0 else 1,
                           \<lambda>(q, i). currentSize q - i]")
  show "wf (measures [\<lambda>(q, i). if int i \<le> INT_MAX then 0 else (1::nat),
                      \<lambda>(q, i). currentSize q - i])"
    by simp
next
  fix q :: HeapPQueue and index s
  assume r: "smallest_of q index = Inr s" and ne: "s \<noteq> index"
  define L R n where "L = leftChild index" and "R = rightChild index"
    and "n = int (currentSize q)"
  have range: "INT_MIN \<le> wrap_int x \<and> wrap_int x \<le> INT_MAX" for x
  proof -
    have "0 \<le> (x - INT_MIN) mod 4294967296" "(x - INT_MIN) mod 4294967296 < 4294967296"
      by simp_all
    then show ?thesis by (simp add: wrap_int_def INT_MIN_def INT_MAX_def)
  qed
  have same: "wrap_int x = x" if "INT_MIN \<le> x" "x \<le> INT_MAX" for x
  proof -
    have "(x - INT_MIN) mod 4294967296 = x - INT_MIN"
      using that by (intro mod_pos_pos_trivial) (simp_all add: INT_MIN_def INT_MAX_def)
    then show ?thesis by (simp add: wrap_int_def)
  qed
  have over: "wrap_int x = x - 4294967296" if "INT_MAX < x" "x \<le> 4294967296" for x
  proof -
    have "(x - INT_MIN) mod 4294967296 = (x - INT_MIN - 4294967296) mod 4294967296"
      by (simp add: mod_diff_right_eq [symmetric, of "x - INT_MIN" 4294967296])
    also have "\<dots> = x - INT_MIN - 4294967296"
      using that by (intro mod_pos_pos_trivial) (simp_all add: INT_MIN_def INT_MAX_def)
    finally show ?thesis by (simp add: wrap_int_def)
  qed
  have inside: "0 \<le> i \<and> i < int (length h)" if "less_at h i j = Inr b" for h i j b
    using that by (auto simp: less_at_def load_def split: if_splits sum.splits)
  from r obtain b1 b2 where
    t1: "(if L < n then less_at (heap q) L (int index) else Inr False) = Inr b1" and
    t2: "(if R < n then less_at (heap q) R (if b1 then L else int index) else Inr False)
         = Inr b2" and
    s: "s = nat (if b2 then R else if b1 then L else int index)"
    unfolding L_def R_def n_def
    by (auto simp: smallest_of_def Let_def split: sum.splits)
  have n0: "0 \<le> n" by (simp add: n_def)
  have L0: "0 \<le> L" using t1 inside [of "heap q" L "int index" b1] n0 by (cases "L < n") auto
  have R0: "0 \<le> R"
    using t2 inside [of "heap q" R "if b1 then L else int index" b2] n0 by (cases "R < n") auto
  have b1: "L < n" if b1 using t1 that by (cases "L < n") auto
  have b2: "R < n" if b2 using t2 that by (cases "R < n") auto
  have sc: "int s = L \<or> int s = R" and sn: "int s < n"
    using s ne L0 R0 b1 b2 by (auto split: if_splits)
  have small: "int s \<le> INT_MAX"
    using sc range [of "2 * int index + 1"] range [of "2 * int index + 2"]
    by (auto simp: L_def R_def leftChild_def rightChild_def)
  have up: "index < s" if i: "int index \<le> INT_MAX"
  proof -
    have l: "2 * int index + 1 \<le> INT_MAX"
    proof (rule ccontr)
      assume "\<not> 2 * int index + 1 \<le> INT_MAX"
      then have "L = 2 * int index + 1 - 4294967296"
        using i over [of "2 * int index + 1"] by (simp add: L_def leftChild_def INT_MAX_def)
      then show False using L0 i by (simp add: INT_MAX_def)
    qed
    then have L: "L = 2 * int index + 1"
      using same [of "2 * int index + 1"] by (simp add: L_def leftChild_def INT_MIN_def)
    have "2 * int index + 2 \<le> INT_MAX"
    proof (rule ccontr)
      assume "\<not> 2 * int index + 2 \<le> INT_MAX"
      then have "R = 2 * int index + 2 - 4294967296"
        using l over [of "2 * int index + 2"] by (simp add: R_def rightChild_def INT_MAX_def)
      then show False using R0 l by (simp add: INT_MAX_def)
    qed
    then have "R = 2 * int index + 2"
      using same [of "2 * int index + 2"] by (simp add: R_def rightChild_def INT_MIN_def)
    with L sc show ?thesis by auto
  qed
  show "((q\<lparr>heap := swap (heap q) index s\<rparr>, s), (q, index))
        \<in> measures [\<lambda>(q, i). if int i \<le> INT_MAX then 0 else 1, \<lambda>(q, i). currentSize q - i]"
    using small up sn by (auto simp: n_def)
qed

declare bubbleUp.simps [simp del] bubbleDown.simps [simp del]

subsection \<open>Reallocation, insertion, extraction\<close>

text \<open>
  The loop of \<^verbatim>\<open>resize\<close> reads the slots below \<^verbatim>\<open>currentSize\<close> of the old buffer and writes
  the same slots of the new one, which has \<^verbatim>\<open>newCapacity\<close> of them.
\<close>

definition resize :: "HeapPQueue \<Rightarrow> int \<Rightarrow> (error + unit) \<times> HeapPQueue" where
  "resize q newCapacity =
     (if newCapacity < int (currentSize q) then (Inl InvalidResizeError, q)
      else if length (heap q) < currentSize q then (Inl OutOfBounds, q)
      else
        let newHeap = take (currentSize q) (heap q)
                      @ replicate (nat newCapacity - currentSize q) default_DataPoint
        in (Inr (), q\<lparr>heap := newHeap, capacity := nat newCapacity\<rparr>))"

text \<open>The arguments of the two calls of \<^verbatim>\<open>resize\<close>, as the code computes them.\<close>

definition grow_target :: "HeapPQueue \<Rightarrow> int" where
  "grow_target q = static_cast_int (of_nat (capacity q) * growFactor q)"

definition shrink_target :: "HeapPQueue \<Rightarrow> int" where
  "shrink_target q =
     max (int INITIAL_CAPACITY) (static_cast_int (of_nat (capacity q) / growFactor q))"

definition enqueue :: "HeapPQueue \<Rightarrow> DataPoint \<Rightarrow> (error + unit) \<times> HeapPQueue" where
  "enqueue q data =
     (case (if size_pq q = capacity q then resize q (grow_target q) else (Inr (), q)) of
        (Inl e, q1) \<Rightarrow> (Inl e, q1)
      | (Inr _, q1) \<Rightarrow>
          (case store (heap q1) (int (currentSize q1)) data of
             Inl e \<Rightarrow> (Inl e, q1)
           | Inr h \<Rightarrow>
               let q2 = q1\<lparr>heap := h\<rparr>;
                   q3 = q2\<lparr>currentSize := currentSize q2 + 1\<rparr>
               in bubbleUp q3 (currentSize q3 - 1)))"

text \<open>
  The middle of \<^verbatim>\<open>dequeue\<close>: the last live element is copied to the root, \<^verbatim>\<open>currentSize\<close>
  is decremented and the root is bubbled down. It has a name of its own because the
  shrink test and the shrinking call of \<^verbatim>\<open>resize\<close> read the state it leaves.
\<close>

definition remove_root :: "HeapPQueue \<Rightarrow> (error + unit) \<times> HeapPQueue" where
  "remove_root q =
     (case load (heap q) (int (currentSize q) - 1) of
        Inl e \<Rightarrow> (Inl e, q)
      | Inr d \<Rightarrow>
          (case store (heap q) 0 d of
             Inl e \<Rightarrow> (Inl e, q)
           | Inr h \<Rightarrow>
               let q1 = q\<lparr>heap := h\<rparr>;
                   q2 = q1\<lparr>currentSize := currentSize q1 - 1\<rparr>
               in bubbleDown q2 0))"

definition dequeue :: "HeapPQueue \<Rightarrow> (error + DataPoint) \<times> HeapPQueue" where
  "dequeue q =
     (if isEmpty q then (Inl EmptyQueueError, q)
      else
        (case load (heap q) 0 of
           Inl e \<Rightarrow> (Inl e, q)
         | Inr rootPoint \<Rightarrow>
             (case remove_root q of
                (Inl e, q3) \<Rightarrow> (Inl e, q3)
              | (Inr _, q3) \<Rightarrow>
                  if of_nat (size_pq q3) < shrinkThreshold q3 * of_nat (capacity q3)
                  then (case resize q3 (shrink_target q3) of
                          (Inl e, q4) \<Rightarrow> (Inl e, q4)
                        | (Inr _, q4) \<Rightarrow> (Inr rootPoint, q4))
                  else (Inr rootPoint, q3))))"

subsection \<open>Callers\<close>

text \<open>
  A call of one of the three methods that can raise. A caller that catches the error of
  a call (as \<^verbatim>\<open>EXPECT_ERROR\<close> in the tests does) goes on with the state the call left.
  An access outside the buffer is not an error that a caller can catch: the program has
  no defined state from there on. A run ends at such a call; it reports the call and
  keeps the state before it, the last one that the language defines.
\<close>

datatype op = Enqueue DataPoint | Dequeue | Peek

fun is_enqueue :: "op \<Rightarrow> bool" where
  "is_enqueue (Enqueue d) = True"
| "is_enqueue Dequeue = False"
| "is_enqueue Peek = False"

fun call :: "HeapPQueue \<Rightarrow> op \<Rightarrow> (error + DataPoint option) \<times> HeapPQueue" where
  "call q (Enqueue d) =
     (case enqueue q d of (Inl e, q1) \<Rightarrow> (Inl e, q1) | (Inr _, q1) \<Rightarrow> (Inr None, q1))"
| "call q Dequeue =
     (case dequeue q of (Inl e, q1) \<Rightarrow> (Inl e, q1) | (Inr d, q1) \<Rightarrow> (Inr (Some d), q1))"
| "call q Peek =
     (case peek q of (Inl e, q1) \<Rightarrow> (Inl e, q1) | (Inr d, q1) \<Rightarrow> (Inr (Some d), q1))"

fun run :: "HeapPQueue \<Rightarrow> op list \<Rightarrow> (error + DataPoint option) list \<times> HeapPQueue" where
  "run q [] = ([], q)"
| "run q (c # cs) =
     (case call q c of
        (r, q1) \<Rightarrow>
          if r = Inl OutOfBounds then ([r], q)
          else (case run q1 cs of (rs, q2) \<Rightarrow> (r # rs, q2)))"

definition exec :: "HeapPQueue \<Rightarrow> op list \<Rightarrow> HeapPQueue" where
  "exec q cs = snd (run q cs)"

text \<open>\<^verbatim>\<open>for (DataPoint elem: sequence) pq.enqueue(elem);\<close> An error ends the loop.\<close>

fun enqueue_all :: "HeapPQueue \<Rightarrow> DataPoint list \<Rightarrow> (error + unit) \<times> HeapPQueue" where
  "enqueue_all q [] = (Inr (), q)"
| "enqueue_all q (d # ds) =
     (case enqueue q d of (Inl e, q1) \<Rightarrow> (Inl e, q1) | (Inr _, q1) \<Rightarrow> enqueue_all q1 ds)"

text \<open>\<^verbatim>\<open>for (int i = 0; i < n; i++) out.add(pq.dequeue());\<close>\<close>

fun dequeue_n :: "HeapPQueue \<Rightarrow> nat \<Rightarrow> (error + DataPoint list) \<times> HeapPQueue" where
  "dequeue_n q 0 = (Inr [], q)"
| "dequeue_n q (Suc n) =
     (case dequeue q of
        (Inl e, q1) \<Rightarrow> (Inl e, q1)
      | (Inr d, q1) \<Rightarrow>
          (case dequeue_n q1 n of
             (Inl e, q2) \<Rightarrow> (Inl e, q2)
           | (Inr ds, q2) \<Rightarrow> (Inr (d # ds), q2)))"

text \<open>
  \<^verbatim>\<open>while (!pq.isEmpty()) out.add(pq.dequeue());\<close> The loop ends because every call of
  \<^verbatim>\<open>dequeue\<close> that returns has made \<^verbatim>\<open>currentSize\<close> smaller.
\<close>

function drain :: "HeapPQueue \<Rightarrow> (error + DataPoint list) \<times> HeapPQueue" where
  "drain q =
     (if isEmpty q then (Inr [], q)
      else (case dequeue q of
              (Inl e, q1) \<Rightarrow> (Inl e, q1)
            | (Inr d, q1) \<Rightarrow>
                (case drain q1 of
                   (Inl e, q2) \<Rightarrow> (Inl e, q2)
                 | (Inr ds, q2) \<Rightarrow> (Inr (d # ds), q2))))"
  by pat_completeness auto
termination
proof (relation "measure currentSize")
  show "wf (measure currentSize)" by simp
next
  fix q y :: HeapPQueue and x :: "error + DataPoint" and b :: DataPoint
  assume ne: "\<not> isEmpty q" and eq: "(x, y) = dequeue q" and x: "x = Inr b"
  have down: "currentSize (snd (bubbleDown p i)) = currentSize p" for p i
  proof (induction p i rule: bubbleDown.induct)
    case (1 p i)
    show ?case
    proof (cases "smallest_of p i")
      case (Inl e)
      then show ?thesis by (subst bubbleDown.simps) simp
    next
      case (Inr s)
      with 1 [OF Inr] show ?thesis by (subst bubbleDown.simps) simp
    qed
  qed
  have root: "currentSize (snd (remove_root q)) = currentSize q - 1"
    if "fst (remove_root q) = Inr u" for u
    using that by (auto simp: remove_root_def Let_def down split: sum.splits)
  have size: "currentSize (snd (resize p n)) = currentSize p" for p n
    by (simp add: resize_def Let_def)
  from eq x have d: "dequeue q = (Inr b, y)" by simp
  then obtain q3 where q3: "remove_root q = (Inr (), q3)"
    and y: "y = q3 \<or> y = snd (resize q3 (shrink_target q3))"
    using ne
    by (auto simp: dequeue_def split: sum.splits prod.splits if_splits)
  have "currentSize q3 = currentSize q - 1" using root [of "()"] q3 by simp
  then have "currentSize y = currentSize q - 1" using y size [of q3 "shrink_target q3"] by auto
  with ne show "(y, q) \<in> measure currentSize"
    by (simp add: isEmpty_def)
qed

declare drain.simps [simp del]

subsection \<open>The live part of the buffer and the heap order\<close>

definition live :: "HeapPQueue \<Rightarrow> DataPoint list" where
  "live q = take (currentSize q) (heap q)"

definition heap_property :: "HeapPQueue \<Rightarrow> bool" where
  "heap_property q =
     (\<forall>i \<in> {1..<currentSize q}. weight (heap q ! parent i) \<le> weight (heap q ! i))"

subsection \<open>Observations on a sequence of calls\<close>

text \<open>
  A call of \<^verbatim>\<open>enqueue\<close> makes its growing call of \<^verbatim>\<open>resize\<close> when its test
  \<^verbatim>\<open>size() == capacity\<close> holds, a call of \<^verbatim>\<open>dequeue\<close> makes its shrinking call when it gets
  as far as its test \<^verbatim>\<open>size() < shrinkThreshold * capacity\<close> and the test holds. The counts
  follow a run, which ends at an access outside the buffer.
\<close>

definition grows :: "HeapPQueue \<Rightarrow> op \<Rightarrow> bool" where
  "grows q c = (is_enqueue c \<and> size_pq q = capacity q)"

definition shrinks :: "HeapPQueue \<Rightarrow> op \<Rightarrow> bool" where
  "shrinks q c =
     (c = Dequeue \<and> \<not> isEmpty q \<and>
      (case remove_root q of
         (Inl e, q3) \<Rightarrow> False
       | (Inr _, q3) \<Rightarrow> of_nat (size_pq q3) < shrinkThreshold q3 * of_nat (capacity q3)))"

fun grow_calls :: "HeapPQueue \<Rightarrow> op list \<Rightarrow> nat" where
  "grow_calls q [] = 0"
| "grow_calls q (c # cs) =
     (if grows q c then 1 else 0)
     + (case call q c of (r, q1) \<Rightarrow> if r = Inl OutOfBounds then 0 else grow_calls q1 cs)"

fun shrink_calls :: "HeapPQueue \<Rightarrow> op list \<Rightarrow> nat" where
  "shrink_calls q [] = 0"
| "shrink_calls q (c # cs) =
     (if shrinks q c then 1 else 0)
     + (case call q c of (r, q1) \<Rightarrow> if r = Inl OutOfBounds then 0 else shrink_calls q1 cs)"

text \<open>The calls of a sequence that returned, by method.\<close>

fun returned :: "error + DataPoint option \<Rightarrow> bool" where
  "returned (Inl e) = False"
| "returned (Inr v) = True"

definition enqueues_returned :: "op list \<Rightarrow> (error + DataPoint option) list \<Rightarrow> nat" where
  "enqueues_returned cs rs = length (filter (\<lambda>(c, r). is_enqueue c \<and> returned r) (zip cs rs))"

definition dequeues_returned :: "op list \<Rightarrow> (error + DataPoint option) list \<Rightarrow> nat" where
  "dequeues_returned cs rs = length (filter (\<lambda>(c, r). c = Dequeue \<and> returned r) (zip cs rs))"

text \<open>
  The elements of the tests: \<^verbatim>\<open>{ f(i), i }\<close> for \<open>i\<close> from \<open>lo\<close> up to \<open>hi - 1\<close>;
  \<^verbatim>\<open>std::to_string\<close> on a number that is not negative (its decimal digits), and the names
  \<^verbatim>\<open>"elem" + to_string(i)\<close> of the resizing test.
\<close>

definition points :: "(nat \<Rightarrow> string) \<Rightarrow> nat \<Rightarrow> nat \<Rightarrow> DataPoint list" where
  "points f lo hi = map (\<lambda>i. \<lparr>name = f i, weight = int i\<rparr>) [lo..<hi]"

function to_string :: "nat \<Rightarrow> string" where
  "to_string n =
     (if n < 10 then [''0123456789'' ! n]
      else to_string (n div 10) @ [''0123456789'' ! (n mod 10)])"
  by pat_completeness auto
termination
  by (relation "measure id") auto

declare to_string.simps [simp del]

definition elem :: "nat \<Rightarrow> string" where
  "elem i = ''elem'' @ to_string i"

text \<open>
  What a call does to \<^verbatim>\<open>currentSize\<close> and \<^verbatim>\<open>capacity\<close>, in integer arithmetic, for a
  queue with the constructor's factors that holds at most \<open>2^30\<close> elements. Used to count
  reallocations without running the heap.
\<close>

fun shape_call :: "nat \<times> nat \<Rightarrow> op \<Rightarrow> nat \<times> nat" where
  "shape_call (n, c) (Enqueue d) = (Suc n, if n = c then 2 * c else c)"
| "shape_call (n, c) Dequeue =
     (if n = 0 then (n, c)
      else (n - 1, if 4 * (n - 1) < c then max INITIAL_CAPACITY (c div 2) else c))"
| "shape_call (n, c) Peek = (n, c)"

fun shape_exec :: "nat \<times> nat \<Rightarrow> op list \<Rightarrow> nat \<times> nat" where
  "shape_exec s [] = s"
| "shape_exec s (c # cs) = shape_exec (shape_call s c) cs"

fun shape_grows :: "nat \<times> nat \<Rightarrow> op list \<Rightarrow> nat" where
  "shape_grows s [] = 0"
| "shape_grows s (c # cs) =
     (if is_enqueue c \<and> fst s = snd s then 1 else 0) + shape_grows (shape_call s c) cs"

fun shape_shrinks :: "nat \<times> nat \<Rightarrow> op list \<Rightarrow> nat" where
  "shape_shrinks s [] = 0"
| "shape_shrinks s (c # cs) =
     (if c = Dequeue \<and> 0 < fst s \<and> 4 * (fst s - 1) < snd s then 1 else 0)
     + shape_shrinks (shape_call s c) cs"

subsection \<open>Predicates of the proofs\<close>

text \<open>
  The heap order on the first \<open>n\<close> slots of a buffer, and its two weakenings that hold
  while an element travels: in \<open>up_ok\<close> the element at \<open>k\<close> may be smaller than its
  parent, in \<open>down_ok\<close> it may be larger than its children.
\<close>

definition is_heap :: "nat \<Rightarrow> DataPoint list \<Rightarrow> bool" where
  "is_heap n h = (\<forall>i. 1 \<le> i \<and> i < n \<longrightarrow> weight (h ! parent i) \<le> weight (h ! i))"

definition up_ok :: "nat \<Rightarrow> DataPoint list \<Rightarrow> nat \<Rightarrow> bool" where
  "up_ok n h k =
     ((\<forall>i. 1 \<le> i \<and> i < n \<and> i \<noteq> k \<longrightarrow> weight (h ! parent i) \<le> weight (h ! i)) \<and>
      (\<forall>i. 1 \<le> i \<and> i < n \<and> parent i = k \<and> 1 \<le> k \<longrightarrow>
           weight (h ! parent k) \<le> weight (h ! i)))"

definition down_ok :: "nat \<Rightarrow> DataPoint list \<Rightarrow> nat \<Rightarrow> bool" where
  "down_ok n h k =
     ((\<forall>i. 1 \<le> i \<and> i < n \<and> parent i \<noteq> k \<longrightarrow> weight (h ! parent i) \<le> weight (h ! i)) \<and>
      (\<forall>i. 1 \<le> i \<and> i < n \<and> parent i = k \<and> 1 \<le> k \<longrightarrow>
           weight (h ! parent k) \<le> weight (h ! i)))"

text \<open>
  The invariant of the class: what the constructor sets up and every method keeps. The
  capacity is the initial one doubled some number of times, and never more than
  \<open>100 * 2^24\<close>, the largest such number that fits an \<^verbatim>\<open>int\<close>.
\<close>

definition valid :: "HeapPQueue \<Rightarrow> bool" where
  "valid q \<longleftrightarrow>
     length (heap q) = capacity q \<and> currentSize q \<le> capacity q \<and>
     INITIAL_CAPACITY \<le> capacity q \<and> capacity q \<le> 1677721600 \<and>
     (\<exists>k. capacity q = INITIAL_CAPACITY * 2 ^ k) \<and>
     growFactor q = 2 \<and> shrinkThreshold q = 1 / 4 \<and>
     is_heap (currentSize q) (heap q)"

section \<open>Lemmas\<close>

subsection \<open>Machine integers and buffer accesses\<close>

lemma wrap_int_range: "INT_MIN \<le> wrap_int x \<and> wrap_int x \<le> INT_MAX"
proof -
  have "0 \<le> (x - INT_MIN) mod 4294967296" "(x - INT_MIN) mod 4294967296 < 4294967296"
    by simp_all
  then show ?thesis by (simp add: wrap_int_def INT_MIN_def INT_MAX_def)
qed

lemma wrap_int_same: "INT_MIN \<le> x \<Longrightarrow> x \<le> INT_MAX \<Longrightarrow> wrap_int x = x"
proof -
  assume "INT_MIN \<le> x" "x \<le> INT_MAX"
  then have "(x - INT_MIN) mod 4294967296 = x - INT_MIN"
    by (intro mod_pos_pos_trivial) (simp_all add: INT_MIN_def INT_MAX_def)
  then show ?thesis by (simp add: wrap_int_def)
qed

lemma wrap_int_over: "INT_MAX < x \<Longrightarrow> x \<le> 4294967296 \<Longrightarrow> wrap_int x = x - 4294967296"
proof -
  assume a: "INT_MAX < x" "x \<le> 4294967296"
  have "(x - INT_MIN) mod 4294967296 = (x - INT_MIN - 4294967296) mod 4294967296"
    by (simp add: mod_diff_right_eq [symmetric, of "x - INT_MIN" 4294967296])
  also have "\<dots> = x - INT_MIN - 4294967296"
    using a by (intro mod_pos_pos_trivial) (simp_all add: INT_MIN_def INT_MAX_def)
  finally show ?thesis by (simp add: wrap_int_def)
qed

lemma leftChild_same: "2 * int i + 1 \<le> INT_MAX \<Longrightarrow> leftChild i = 2 * int i + 1"
  by (simp add: leftChild_def wrap_int_same INT_MIN_def)

lemma rightChild_same: "2 * int i + 2 \<le> INT_MAX \<Longrightarrow> rightChild i = 2 * int i + 2"
  by (simp add: rightChild_def wrap_int_same INT_MIN_def)

lemma leftChild_negative:
  "INT_MAX < 2 * int i + 1 \<Longrightarrow> int i \<le> INT_MAX \<Longrightarrow> leftChild i < 0"
  using wrap_int_over [of "2 * int i + 1"] by (simp add: leftChild_def INT_MAX_def)

lemma rightChild_negative:
  "INT_MAX < 2 * int i + 2 \<Longrightarrow> 2 * int i + 1 \<le> INT_MAX \<Longrightarrow> rightChild i < 0"
  using wrap_int_over [of "2 * int i + 2"] by (simp add: rightChild_def INT_MAX_def)

lemma load_inside: "i < length h \<Longrightarrow> load h (int i) = Inr (h ! i)"
  by (simp add: load_def)


lemma load_error: "load h i = Inl e \<Longrightarrow> e = OutOfBounds"
  by (auto simp: load_def split: if_splits)

lemma store_inside: "i < length h \<Longrightarrow> store h (int i) v = Inr (h[i := v])"
  by (simp add: store_def)

lemma less_at_inside:
  "i < length h \<Longrightarrow> j < length h \<Longrightarrow>
   less_at h (int i) (int j) = Inr (weight (h ! i) < weight (h ! j))"
  by (simp add: less_at_def load_inside)


lemma less_at_error: "less_at h i j = Inl e \<Longrightarrow> e = OutOfBounds"
  by (auto simp: less_at_def dest: load_error split: sum.splits)

subsection \<open>Index arithmetic and swaps\<close>

lemma heap_property_is_heap: "heap_property q = is_heap (currentSize q) (heap q)"
  by (auto simp: heap_property_def is_heap_def)

lemma parent_less: "1 \<le> i \<Longrightarrow> parent i < i"
  by (auto simp: parent_def)

lemma parent_eq_iff: "1 \<le> i \<Longrightarrow> parent i = k \<longleftrightarrow> i = 2 * k + 1 \<or> i = 2 * k + 2"
  by (auto simp: parent_def)

lemma swap_length [simp]: "length (swap h i j) = length h"
  by (simp add: swap_def)

lemma swap_nth:
  "i < length h \<Longrightarrow> j < length h \<Longrightarrow>
   swap h i j ! m = (if m = j then h ! i else if m = i then h ! j else h ! m)"
  by (simp add: swap_def nth_list_update)

lemma mset_take_swap:
  assumes "i < n" "j < n" "n \<le> length h"
  shows "mset (take n (swap h i j)) = mset (take n h)"
proof -
  have "take n (swap h i j) = (take n h)[i := take n h ! j, j := take n h ! i]"
    using assms by (simp add: swap_def take_update_swap)
  moreover have "mset ((take n h)[i := take n h ! j, j := take n h ! i]) = mset (take n h)"
    using mset_swap [of j "take n h" i] assms by simp
  ultimately show ?thesis by simp
qed

lemma up_ok_step:
  assumes ok: "up_ok n h k" and k: "k < n" "n \<le> length h" "0 < k"
    and lt: "weight (h ! k) < weight (h ! parent k)"
  shows "up_ok n (swap h k (parent k)) (parent k)"
proof -
  let ?p = "parent k"
  let ?h = "swap h k ?p"
  have pk: "?p < k" using k by (simp add: parent_less)
  have nth: "?h ! m = (if m = ?p then h ! k else if m = k then h ! ?p else h ! m)" for m
    using k pk by (simp add: swap_nth)
  have a: "weight (h ! parent i) \<le> weight (h ! i)" if "1 \<le> i" "i < n" "i \<noteq> k" for i
    using ok that by (simp add: up_ok_def)
  have b: "weight (h ! ?p) \<le> weight (h ! i)" if "1 \<le> i" "i < n" "parent i = k" for i
    using ok that k by (simp add: up_ok_def)
  have "weight (?h ! parent i) \<le> weight (?h ! i)" if i: "1 \<le> i" "i < n" "i \<noteq> ?p" for i
  proof (cases "i = k")
    case True
    then show ?thesis using lt pk by (simp add: nth)
  next
    case False
    have pi: "parent i < i" using i by (simp add: parent_less)
    show ?thesis
    proof (cases "parent i = k")
      case True
      then show ?thesis using b [of i] i False pk by (simp add: nth)
    next
      case nk: False
      show ?thesis
      proof (cases "parent i = ?p")
        case True
        then show ?thesis using a [of i] i False lt by (simp add: nth)
      next
        case False
        then show ?thesis using a [of i] i nk \<open>i \<noteq> k\<close> by (simp add: nth)
      qed
    qed
  qed
  moreover have "weight (?h ! parent ?p) \<le> weight (?h ! i)"
    if i: "1 \<le> i" "i < n" "parent i = ?p" "1 \<le> ?p" for i
  proof -
    have pp: "parent ?p < ?p" using i by (simp add: parent_less)
    have pn: "?p < n" using pk k by simp
    have 1: "weight (h ! parent ?p) \<le> weight (h ! ?p)"
      using a [of ?p] i pn pk by simp
    have ip: "i \<noteq> ?p" using i parent_less [of i] by auto
    show ?thesis
    proof (cases "i = k")
      case True
      then show ?thesis using 1 pp pk by (simp add: nth)
    next
      case False
      then show ?thesis using a [of i] i 1 pp pk ip by (simp add: nth)
    qed
  qed
  ultimately show ?thesis by (simp add: up_ok_def)
qed

lemma up_ok_done:
  assumes "up_ok n h k" and "\<not> (0 < k \<and> weight (h ! k) < weight (h ! parent k))"
  shows "is_heap n h"
  using assms unfolding up_ok_def is_heap_def
  by (metis linorder_not_less not_less_eq_eq One_nat_def less_eq_Suc_le)

subsection \<open>Bubbling up\<close>

lemma bubbleUp_root: "bubbleUp q 0 = (Inr (), q)"
  by (subst bubbleUp.simps) simp

lemma bubbleUp_stop:
  "0 < k \<Longrightarrow> less_at (heap q) (int k) (int (parent k)) = Inr False \<Longrightarrow>
   bubbleUp q k = (Inr (), q)"
  by (subst bubbleUp.simps) simp

lemma bubbleUp_go:
  "0 < k \<Longrightarrow> less_at (heap q) (int k) (int (parent k)) = Inr True \<Longrightarrow>
   bubbleUp q k = bubbleUp (q\<lparr>heap := swap (heap q) k (parent k)\<rparr>) (parent k)"
  by (subst bubbleUp.simps) simp

lemma bubbleUp_crash:
  "0 < k \<Longrightarrow> less_at (heap q) (int k) (int (parent k)) = Inl e \<Longrightarrow>
   bubbleUp q k = (Inl e, q)"
  by (subst bubbleUp.simps) simp

lemma frame_heap: "q' = p\<lparr>heap := heap q'\<rparr> \<Longrightarrow> p = q\<lparr>heap := h\<rparr> \<Longrightarrow> q' = q\<lparr>heap := heap q'\<rparr>"
  by (metis HeapPQueue.update_convs(3) HeapPQueue.surjective HeapPQueue.select_convs(3))

lemma bubbleUp_frame: "snd (bubbleUp q k) = q\<lparr>heap := heap (snd (bubbleUp q k))\<rparr>"
proof (induction q k rule: bubbleUp.induct)
  case (1 q index)
  show ?case
  proof (cases "0 < index")
    case False
    then show ?thesis by (simp add: bubbleUp_root)
  next
    case True
    show ?thesis
    proof (cases "less_at (heap q) (int index) (int (parent index))")
      case (Inl e)
      then show ?thesis using True by (simp add: bubbleUp_crash)
    next
      case (Inr b)
      show ?thesis
      proof (cases b)
        case False
        then show ?thesis using True Inr by (simp add: bubbleUp_stop)
      next
        case b: True
        have go: "bubbleUp q index
            = bubbleUp (q\<lparr>heap := swap (heap q) index (parent index)\<rparr>) (parent index)"
          using True Inr b by (simp add: bubbleUp_go)
        show ?thesis
          unfolding go by (rule frame_heap [OF 1 [OF True Inr b] refl])
      qed
    qed
  qed
qed

lemma bubbleUp_heap:
  "up_ok (currentSize q) (heap q) k \<Longrightarrow> k < currentSize q \<Longrightarrow> currentSize q \<le> length (heap q) \<Longrightarrow>
   fst (bubbleUp q k) = Inr () \<and>
   is_heap (currentSize q) (heap (snd (bubbleUp q k))) \<and>
   length (heap (snd (bubbleUp q k))) = length (heap q) \<and>
   mset (take (currentSize q) (heap (snd (bubbleUp q k)))) = mset (take (currentSize q) (heap q))"
proof (induction q k rule: bubbleUp.induct)
  case (1 q index)
  show ?case
  proof (cases "0 < index")
    case False
    then have "index = 0" by simp
    then show ?thesis
      using up_ok_done [OF "1.prems"(1)] by (simp add: bubbleUp_root)
  next
    case True
    have pl: "parent index < index" using True by (simp add: parent_less)
    have le: "less_at (heap q) (int index) (int (parent index))
              = Inr (weight (heap q ! index) < weight (heap q ! parent index))"
      using "1.prems" pl by (intro less_at_inside) auto
    show ?thesis
    proof (cases "weight (heap q ! index) < weight (heap q ! parent index)")
      case False
      then have e: "bubbleUp q index = (Inr (), q)" using True le by (simp add: bubbleUp_stop)
      show ?thesis unfolding e using up_ok_done [OF "1.prems"(1)] False by simp
    next
      case lt: True
      let ?q = "q\<lparr>heap := swap (heap q) index (parent index)\<rparr>"
      have e: "bubbleUp q index = bubbleUp ?q (parent index)"
        using True le lt by (simp add: bubbleUp_go)
      have "up_ok (currentSize ?q) (heap ?q) (parent index)"
        using up_ok_step [of "currentSize q" "heap q" index] 1 True lt by simp
      moreover have "parent index < currentSize ?q" using pl 1 by simp
      moreover have "currentSize ?q \<le> length (heap ?q)" using 1 by simp
      ultimately have ih: "fst (bubbleUp ?q (parent index)) = Inr () \<and>
         is_heap (currentSize ?q) (heap (snd (bubbleUp ?q (parent index)))) \<and>
         length (heap (snd (bubbleUp ?q (parent index)))) = length (heap ?q) \<and>
         mset (take (currentSize ?q) (heap (snd (bubbleUp ?q (parent index)))))
           = mset (take (currentSize ?q) (heap ?q))"
        using "1.IH" [OF True le lt] by blast
      have "mset (take (currentSize q) (swap (heap q) index (parent index)))
            = mset (take (currentSize q) (heap q))"
        using 1 pl by (intro mset_take_swap) auto
      with ih show ?thesis unfolding e by simp
    qed
  qed
qed

subsection \<open>Bubbling down\<close>

lemma smallest_of_error: "smallest_of q k = Inl e \<Longrightarrow> e = OutOfBounds"
  by (auto simp: smallest_of_def Let_def dest: less_at_error split: sum.splits if_splits)

lemma less_at_Inr_inside: "less_at h i j = Inr b \<Longrightarrow> 0 \<le> i \<and> i < int (length h)"
  by (auto simp: less_at_def load_def split: if_splits sum.splits)

text \<open>A round that ends without an access outside the buffer has computed both child
  indices without overflow.\<close>

lemma smallest_of_no_overflow:
  assumes r: "smallest_of q k = Inr s" and k: "int k \<le> INT_MAX"
  shows "2 * int k + 2 \<le> INT_MAX"
proof -
  define L R n where "L = leftChild k" and "R = rightChild k" and "n = int (currentSize q)"
  from r obtain b1 b2 where
    t1: "(if L < n then less_at (heap q) L (int k) else Inr False) = Inr b1" and
    t2: "(if R < n then less_at (heap q) R (if b1 then L else int k) else Inr False) = Inr b2"
    unfolding L_def R_def n_def
    by (auto simp: smallest_of_def Let_def split: sum.splits)
  have n0: "0 \<le> n" by (simp add: n_def)
  have L0: "0 \<le> L"
    using t1 less_at_Inr_inside [of "heap q" L "int k" b1] n0 by (cases "L < n") auto
  have R0: "0 \<le> R"
    using t2 less_at_Inr_inside [of "heap q" R "if b1 then L else int k" b2] n0
    by (cases "R < n") auto
  have l: "2 * int k + 1 \<le> INT_MAX"
  proof (rule ccontr)
    assume "\<not> 2 * int k + 1 \<le> INT_MAX"
    then have "INT_MAX < 2 * int k + 1" by simp
    from leftChild_negative [OF this k] L0 show False by (simp add: L_def)
  qed
  show ?thesis
  proof (rule ccontr)
    assume "\<not> 2 * int k + 2 \<le> INT_MAX"
    then have "INT_MAX < 2 * int k + 2" by simp
    from rightChild_negative [OF this l] R0 show False by (simp add: R_def)
  qed
qed

lemma smallest_of_exact:
  assumes b: "2 * int k + 2 \<le> INT_MAX" and n: "currentSize q \<le> length (heap q)"
  shows "smallest_of q k =
     Inr (let size = currentSize q;
              smallest = k;
              smallest = (if 2 * k + 1 < size \<and>
                             weight (heap q ! (2 * k + 1)) < weight (heap q ! smallest)
                          then 2 * k + 1 else smallest);
              smallest = (if 2 * k + 2 < size \<and>
                             weight (heap q ! (2 * k + 2)) < weight (heap q ! smallest)
                          then 2 * k + 2 else smallest)
          in smallest)"
proof -
  define l r where "l = 2 * k + 1" and "r = 2 * k + 2"
  have L: "leftChild k = int l" using b by (simp add: leftChild_same l_def)
  have R: "rightChild k = int r" using b by (simp add: rightChild_same r_def)
  have kl: "k < l" "l < r" by (simp_all add: l_def r_def)
  have la: "less_at (heap q) (int i) (int j) = Inr (weight (heap q ! i) < weight (heap q ! j))"
    if "i < currentSize q" "j < currentSize q" for i j
    using that n by (intro less_at_inside) auto
  have "smallest_of q k =
     Inr (let size = currentSize q;
              smallest = k;
              smallest = (if l < size \<and> weight (heap q ! l) < weight (heap q ! smallest)
                          then l else smallest);
              smallest = (if r < size \<and> weight (heap q ! r) < weight (heap q ! smallest)
                          then r else smallest)
          in smallest)"
  proof (cases "l < currentSize q")
    case False
    then have "\<not> r < currentSize q" using kl by simp
    with False show ?thesis
      unfolding smallest_of_def L R Let_def by simp
  next
    case l: True
    then have kn: "k < currentSize q" using kl by simp
    show ?thesis
    proof (cases "r < currentSize q")
      case False
      then show ?thesis
        using l unfolding smallest_of_def L R Let_def by (simp add: la kn)
    next
      case True
      show ?thesis
      proof (cases "weight (heap q ! l) < weight (heap q ! k)")
        case True
        then show ?thesis
          using l \<open>r < currentSize q\<close> unfolding smallest_of_def L R Let_def
          by (simp add: la kn)
      next
        case False
        then show ?thesis
          using l \<open>r < currentSize q\<close> unfolding smallest_of_def L R Let_def
          by (simp add: la kn)
      qed
    qed
  qed
  then show ?thesis unfolding l_def r_def .
qed

lemma smallest_of_defined:
  "2 * int k + 2 \<le> INT_MAX \<Longrightarrow> currentSize q \<le> length (heap q) \<Longrightarrow> \<exists>s. smallest_of q k = Inr s"
  by (simp add: smallest_of_exact)

lemma smallest_of_self:
  assumes "smallest_of q k = Inr k" and "int k \<le> INT_MAX" and "currentSize q \<le> length (heap q)"
    and "c = 2 * k + 1 \<or> c = 2 * k + 2" and "c < currentSize q"
  shows "weight (heap q ! k) \<le> weight (heap q ! c)"
proof -
  note b = smallest_of_no_overflow [OF assms(1,2)]
  from assms(1) [unfolded smallest_of_exact [OF b assms(3)]] assms(4,5)
  show ?thesis by (auto simp: Let_def split: if_splits)
qed

lemma smallest_of_child:
  assumes "smallest_of q k = Inr s" and "s \<noteq> k" and "int k \<le> INT_MAX"
    and "currentSize q \<le> length (heap q)"
  shows "(s = 2 * k + 1 \<or> s = 2 * k + 2) \<and> s < currentSize q \<and>
         weight (heap q ! s) < weight (heap q ! k) \<and>
         (\<forall>c. (c = 2 * k + 1 \<or> c = 2 * k + 2) \<and> c < currentSize q \<longrightarrow>
              weight (heap q ! s) \<le> weight (heap q ! c))"
proof -
  note b = smallest_of_no_overflow [OF assms(1,3)]
  from assms(1) [unfolded smallest_of_exact [OF b assms(4)]] assms(2)
  show ?thesis by (auto simp: Let_def split: if_splits)
qed

lemma bubbleDown_stop: "smallest_of q k = Inr k \<Longrightarrow> bubbleDown q k = (Inr (), q)"
  by (subst bubbleDown.simps) simp

lemma bubbleDown_go:
  "smallest_of q k = Inr s \<Longrightarrow> s \<noteq> k \<Longrightarrow>
   bubbleDown q k = bubbleDown (q\<lparr>heap := swap (heap q) k s\<rparr>) s"
  by (subst bubbleDown.simps) simp

lemma bubbleDown_crash: "smallest_of q k = Inl e \<Longrightarrow> bubbleDown q k = (Inl e, q)"
  by (subst bubbleDown.simps) simp

lemma bubbleDown_error: "fst (bubbleDown q k) = Inl e \<Longrightarrow> e = OutOfBounds"
proof (induction q k rule: bubbleDown.induct)
  case (1 q index)
  show ?case
  proof (cases "smallest_of q index")
    case (Inl e')
    then show ?thesis using "1.prems" smallest_of_error [OF Inl] by (simp add: bubbleDown_crash)
  next
    case (Inr s)
    show ?thesis
    proof (cases "s = index")
      case True
      then show ?thesis using "1.prems" Inr by (simp add: bubbleDown_stop)
    next
      case False
      then show ?thesis using "1.prems" "1.IH" [OF Inr False] Inr by (simp add: bubbleDown_go)
    qed
  qed
qed

lemma bubbleDown_frame: "snd (bubbleDown q k) = q\<lparr>heap := heap (snd (bubbleDown q k))\<rparr>"
proof (induction q k rule: bubbleDown.induct)
  case (1 q index)
  show ?case
  proof (cases "smallest_of q index")
    case (Inl e)
    then show ?thesis by (simp add: bubbleDown_crash)
  next
    case (Inr s)
    show ?thesis
    proof (cases "s = index")
      case True
      then show ?thesis using Inr by (simp add: bubbleDown_stop)
    next
      case False
      show ?thesis
        unfolding bubbleDown_go [OF Inr False] by (rule frame_heap [OF 1 [OF Inr False] refl])
    qed
  qed
qed

lemma down_ok_done:
  assumes ok: "down_ok n h k"
    and s: "\<And>c. c = 2 * k + 1 \<or> c = 2 * k + 2 \<Longrightarrow> c < n \<Longrightarrow> weight (h ! k) \<le> weight (h ! c)"
  shows "is_heap n h"
  unfolding is_heap_def
proof (intro allI impI)
  fix i assume i: "1 \<le> i \<and> i < n"
  show "weight (h ! parent i) \<le> weight (h ! i)"
  proof (cases "parent i = k")
    case True
    then have "i = 2 * k + 1 \<or> i = 2 * k + 2"
      using i by (simp add: parent_eq_iff)
    from s [OF this] i True show ?thesis by simp
  next
    case False
    then show ?thesis using ok i by (simp add: down_ok_def)
  qed
qed

lemma down_ok_step:
  assumes ok: "down_ok n h k" and n: "n \<le> length h"
    and c: "(s = 2 * k + 1 \<or> s = 2 * k + 2) \<and> s < n \<and>
         weight (h ! s) < weight (h ! k) \<and>
         (\<forall>c. (c = 2 * k + 1 \<or> c = 2 * k + 2) \<and> c < n \<longrightarrow> weight (h ! s) \<le> weight (h ! c))"
  shows "down_ok n (swap h k s) s"
proof -
  let ?h' = "swap h k s"
  have ps: "parent s = k" using c by (auto simp: parent_def)
  have ks: "k < s" using c by auto
  have sn: "s < n" using c by simp
  have s1: "1 \<le> s" using ks by simp
  have nth: "?h' ! m = (if m = s then h ! k else if m = k then h ! s else h ! m)" for m
    using ks sn n by (simp add: swap_nth)
  have a: "weight (h ! parent i) \<le> weight (h ! i)" if "1 \<le> i" "i < n" "parent i \<noteq> k" for i
    using ok that by (simp add: down_ok_def)
  have b: "weight (h ! parent k) \<le> weight (h ! i)" if "1 \<le> i" "i < n" "parent i = k" "1 \<le> k" for i
    using ok that by (simp add: down_ok_def)
  have ch: "weight (h ! s) \<le> weight (h ! i)" if "1 \<le> i" "i < n" "parent i = k" for i
    using c that by (simp add: parent_eq_iff)
  have "weight (?h' ! parent i) \<le> weight (?h' ! i)"
    if i: "1 \<le> i" "i < n" "parent i \<noteq> s" for i
  proof -
    have pi: "parent i < i" using i by (simp add: parent_less)
    show ?thesis
    proof (cases "parent i = k")
      case True
      show ?thesis
      proof (cases "i = s")
        case True
        then show ?thesis using c ps ks by (simp add: nth)
      next
        case False
        then show ?thesis using ch [of i] i True pi ks by (simp add: nth)
      qed
    next
      case False
      then have "i \<noteq> s" using ps by auto
      show ?thesis
      proof (cases "i = k")
        case True
        then show ?thesis
          using b [of s] s1 sn ps i False ks by (simp add: nth)
      next
        case ik: False
        then show ?thesis using a [of i] i False \<open>i \<noteq> s\<close> by (simp add: nth)
      qed
    qed
  qed
  moreover have "weight (?h' ! parent s) \<le> weight (?h' ! i)"
    if i: "1 \<le> i" "i < n" "parent i = s" for i
  proof -
    have "s < i" using i parent_less [of i] by simp
    then have "i \<noteq> s" "i \<noteq> k" using ks by auto
    moreover have "weight (h ! s) \<le> weight (h ! i)"
      using a [of i] i ks by simp
    ultimately show ?thesis using ps ks by (simp add: nth)
  qed
  ultimately show ?thesis by (simp add: down_ok_def)
qed

lemma bubbleDown_heap:
  "down_ok (currentSize q) (heap q) k \<Longrightarrow> currentSize q \<le> length (heap q) \<Longrightarrow>
   int k \<le> INT_MAX \<Longrightarrow>
   fst (bubbleDown q k) = Inl OutOfBounds \<or>
   (fst (bubbleDown q k) = Inr () \<and>
    is_heap (currentSize q) (heap (snd (bubbleDown q k))) \<and>
    length (heap (snd (bubbleDown q k))) = length (heap q) \<and>
    mset (take (currentSize q) (heap (snd (bubbleDown q k)))) = mset (take (currentSize q) (heap q)))"
proof (induction q k rule: bubbleDown.induct)
  case (1 q index)
  show ?case
  proof (cases "smallest_of q index")
    case (Inl e)
    then show ?thesis using smallest_of_error [OF Inl] by (simp add: bubbleDown_crash)
  next
    case (Inr s)
    show ?thesis
    proof (cases "s = index")
      case True
      have "is_heap (currentSize q) (heap q)"
      proof (rule down_ok_done [OF "1.prems"(1)])
        fix c assume "c = 2 * index + 1 \<or> c = 2 * index + 2" "c < currentSize q"
        then show "weight (heap q ! index) \<le> weight (heap q ! c)"
          using smallest_of_self [of q index c] Inr True "1.prems" by simp
      qed
      then show ?thesis using Inr True by (simp add: bubbleDown_stop)
    next
      case False
      let ?q = "q\<lparr>heap := swap (heap q) index s\<rparr>"
      note c = smallest_of_child [OF Inr False "1.prems"(3,2)]
      have ks: "index < s" using c by auto
      have "down_ok (currentSize ?q) (heap ?q) s"
        using down_ok_step [OF "1.prems"(1,2) c] by simp
      moreover have "currentSize ?q \<le> length (heap ?q)" using 1 by simp
      moreover have "int s \<le> INT_MAX"
        using c smallest_of_no_overflow [OF Inr "1.prems"(3)] by auto
      ultimately have ih: "fst (bubbleDown ?q s) = Inl OutOfBounds \<or>
         (fst (bubbleDown ?q s) = Inr () \<and>
          is_heap (currentSize ?q) (heap (snd (bubbleDown ?q s))) \<and>
          length (heap (snd (bubbleDown ?q s))) = length (heap ?q) \<and>
          mset (take (currentSize ?q) (heap (snd (bubbleDown ?q s))))
            = mset (take (currentSize ?q) (heap ?q)))"
        using "1.IH" [OF Inr False] by blast
      have "mset (take (currentSize q) (swap (heap q) index s))
            = mset (take (currentSize q) (heap q))"
        using c ks "1.prems" by (intro mset_take_swap) auto
      with ih show ?thesis unfolding bubbleDown_go [OF Inr False] by auto
    qed
  qed
qed

lemma bubbleDown_defined:
  "currentSize q \<le> length (heap q) \<Longrightarrow> 2 * int k + 2 \<le> INT_MAX \<Longrightarrow>
   2 * int (currentSize q) \<le> INT_MAX \<Longrightarrow> fst (bubbleDown q k) = Inr ()"
proof (induction q k rule: bubbleDown.induct)
  case (1 q index)
  from smallest_of_defined [OF "1.prems"(2,1)] obtain s where s: "smallest_of q index = Inr s"
    by blast
  show ?case
  proof (cases "s = index")
    case True
    then show ?thesis using s by (simp add: bubbleDown_stop)
  next
    case False
    let ?q = "q\<lparr>heap := swap (heap q) index s\<rparr>"
    have k: "int index \<le> INT_MAX" using "1.prems"(2) by simp
    note c = smallest_of_child [OF s False k "1.prems"(1)]
    have "2 * int s + 2 \<le> INT_MAX" using c "1.prems"(3) by auto
    moreover have "currentSize ?q \<le> length (heap ?q)" using 1 by simp
    moreover have "2 * int (currentSize ?q) \<le> INT_MAX" using 1 by simp
    ultimately show ?thesis
      using "1.IH" [OF s False] unfolding bubbleDown_go [OF s False] by blast
  qed
qed

lemma is_heap_root:
  assumes "is_heap n h" and "i < n"
  shows "weight (h ! 0) \<le> weight (h ! i)"
  using assms(2)
proof (induction i rule: less_induct)
  case (less i)
  show ?case
  proof (cases "i = 0")
    case True
    then show ?thesis by simp
  next
    case False
    then have p: "parent i < i" by (simp add: parent_less)
    have "weight (h ! 0) \<le> weight (h ! parent i)"
      using less p by simp
    moreover have "weight (h ! parent i) \<le> weight (h ! i)"
      using assms(1) less.prems False by (simp add: is_heap_def)
    ultimately show ?thesis by simp
  qed
qed

subsection \<open>The invariant\<close>

lemma valid_new: "valid HeapPQueue_new"
proof -
  have "INITIAL_CAPACITY = INITIAL_CAPACITY * 2 ^ 0" by simp
  then have "\<exists>k. INITIAL_CAPACITY = INITIAL_CAPACITY * 2 ^ k" by (rule exI)
  then show ?thesis
    by (simp add: valid_def HeapPQueue_new_def is_heap_def) (simp add: INITIAL_CAPACITY_def)
qed

lemma is_heap_cong_take:
  assumes "take n h = take n h'"
  shows "is_heap n h = is_heap n h'"
proof -
  have "h ! i = h' ! i" if "i < n" for i
    using assms that by (metis nth_take)
  moreover have "parent i < n" if "1 \<le> i" "i < n" for i
    using that parent_less [of i] by simp
  ultimately show ?thesis by (auto simp: is_heap_def)
qed

lemma static_cast_int_of_nat: "static_cast_int (of_nat n) = (if int n \<le> INT_MAX then int n else INT_MIN)"
proof -
  have "\<lfloor>of_nat n :: rat\<rfloor> = int n" by simp
  moreover have "INT_MIN \<le> int n" by (simp add: INT_MIN_def)
  ultimately show ?thesis by (simp add: static_cast_int_def)
qed

lemma grow_target_2:
  "growFactor q = 2 \<Longrightarrow> 2 * int (capacity q) \<le> INT_MAX \<Longrightarrow> grow_target q = int (2 * capacity q)"
proof -
  assume g: "growFactor q = 2" and b: "2 * int (capacity q) \<le> INT_MAX"
  have e: "(of_nat (capacity q) * 2 :: rat) = of_nat (2 * capacity q)" by simp
  have "grow_target q = static_cast_int (of_nat (2 * capacity q))"
    unfolding grow_target_def g e ..
  also have "\<dots> = (if int (2 * capacity q) \<le> INT_MAX then int (2 * capacity q) else INT_MIN)"
    by (rule static_cast_int_of_nat)
  finally show ?thesis using b by simp
qed

lemma grow_target_over:
  "growFactor q = 2 \<Longrightarrow> INT_MAX < 2 * int (capacity q) \<Longrightarrow> grow_target q = INT_MIN"
proof -
  assume g: "growFactor q = 2" and b: "INT_MAX < 2 * int (capacity q)"
  have e: "(of_nat (capacity q) * 2 :: rat) = of_nat (2 * capacity q)" by simp
  have "grow_target q = static_cast_int (of_nat (2 * capacity q))"
    unfolding grow_target_def g e ..
  also have "\<dots> = (if int (2 * capacity q) \<le> INT_MAX then int (2 * capacity q) else INT_MIN)"
    by (rule static_cast_int_of_nat)
  finally show ?thesis using b by simp
qed

lemma shrink_target_2:
  "growFactor q = 2 \<Longrightarrow> int (capacity q) \<le> INT_MAX \<Longrightarrow>
   shrink_target q = int (max INITIAL_CAPACITY (capacity q div 2))"
proof -
  assume g: "growFactor q = 2" and b: "int (capacity q) \<le> INT_MAX"
  have "\<lfloor>of_nat (capacity q) / of_nat 2 :: rat\<rfloor> = int (capacity q div 2)"
    by (rule floor_divide_of_nat_eq)
  then have f: "\<lfloor>of_nat (capacity q) / 2 :: rat\<rfloor> = int (capacity q div 2)" by simp
  have "int (capacity q div 2) \<le> INT_MAX" using b by simp
  moreover have "INT_MIN \<le> int (capacity q div 2)" by (simp add: INT_MIN_def)
  moreover have "(0::rat) \<le> of_nat (capacity q) / 2" by simp
  ultimately have "static_cast_int (of_nat (capacity q) / 2) = int (capacity q div 2)"
    using f by (simp add: static_cast_int_def del: of_nat_div)
  then show ?thesis using g by (simp add: shrink_target_def del: of_nat_div)
qed

lemma shrink_test:
  "shrinkThreshold q = 1 / 4 \<Longrightarrow>
   (of_nat (size_pq q) < shrinkThreshold q * of_nat (capacity q)) = (4 * currentSize q < capacity q)"
proof -
  assume t: "shrinkThreshold q = 1 / 4"
  have "((of_nat (currentSize q) :: rat) < 1 / 4 * of_nat (capacity q))
      = ((of_nat (4 * currentSize q) :: rat) < of_nat (capacity q))"
    by (simp add: field_simps)
  also have "\<dots> = (4 * currentSize q < capacity q)" by (simp only: of_nat_less_iff)
  finally show ?thesis unfolding t size_pq_def .
qed

lemma capacity_double:
  assumes "\<exists>k. c = INITIAL_CAPACITY * 2 ^ k" and "c < 1677721600"
  shows "2 * c \<le> 1677721600 \<and> (\<exists>k. 2 * c = INITIAL_CAPACITY * 2 ^ k)"
proof -
  from assms(1) obtain k where k: "c = INITIAL_CAPACITY * 2 ^ k" by blast
  have "k < 24"
  proof (rule ccontr)
    assume "\<not> k < 24"
    then have "(2::nat) ^ 24 \<le> 2 ^ k" by (intro power_increasing) simp_all
    then have "100 * (2::nat) ^ 24 \<le> 100 * 2 ^ k" by simp
    then show False using assms(2) k by (simp add: INITIAL_CAPACITY_def)
  qed
  then have "(2::nat) ^ Suc k \<le> 2 ^ 24" by (intro power_increasing) simp_all
  then have "100 * (2::nat) ^ Suc k \<le> 100 * 2 ^ 24" by (simp only: mult_le_cancel1) simp
  then have "2 * c \<le> 1677721600" using k by (simp add: INITIAL_CAPACITY_def)
  moreover have "2 * c = INITIAL_CAPACITY * 2 ^ Suc k" using k by simp
  ultimately show ?thesis by blast
qed

lemma capacity_halve:
  assumes "\<exists>k. c = INITIAL_CAPACITY * 2 ^ k"
  shows "\<exists>k. max INITIAL_CAPACITY (c div 2) = INITIAL_CAPACITY * 2 ^ k"
proof -
  from assms obtain k where k: "c = INITIAL_CAPACITY * 2 ^ k" by blast
  show ?thesis
  proof (cases k)
    case 0
    then have "max INITIAL_CAPACITY (c div 2) = INITIAL_CAPACITY * 2 ^ 0"
      using k by (simp add: INITIAL_CAPACITY_def)
    then show ?thesis by (rule exI)
  next
    case (Suc j)
    then have "c div 2 = INITIAL_CAPACITY * 2 ^ j" using k by simp
    moreover have "INITIAL_CAPACITY \<le> INITIAL_CAPACITY * 2 ^ j" by simp
    ultimately have "max INITIAL_CAPACITY (c div 2) = INITIAL_CAPACITY * 2 ^ j"
      by (simp only: max_absorb2)
    then show ?thesis by (rule exI)
  qed
qed

lemma resize_Inr:
  "int (currentSize q) \<le> n \<Longrightarrow> currentSize q \<le> length (heap q) \<Longrightarrow>
   resize q n = (Inr (), q\<lparr>heap := take (currentSize q) (heap q)
                               @ replicate (nat n - currentSize q) default_DataPoint,
                           capacity := nat n\<rparr>)"
  by (simp add: resize_def)

lemma resize_valid:
  assumes "valid q" and "currentSize q \<le> m" and "INITIAL_CAPACITY \<le> m"
    and "m \<le> 1677721600" and "\<exists>k. m = INITIAL_CAPACITY * 2 ^ k"
  shows "\<exists>q'. resize q (int m) = (Inr (), q') \<and> valid q' \<and> capacity q' = m \<and>
              currentSize q' = currentSize q \<and> live q' = live q"
proof -
  let ?h = "take (currentSize q) (heap q) @ replicate (m - currentSize q) default_DataPoint"
  let ?q = "q\<lparr>heap := ?h, capacity := m\<rparr>"
  have len: "currentSize q \<le> length (heap q)" using assms(1) by (simp add: valid_def)
  have r: "resize q (int m) = (Inr (), ?q)"
    using assms(2) len by (simp add: resize_Inr)
  have tk: "take (currentSize q) ?h = take (currentSize q) (heap q)"
    using len by simp
  have "is_heap (currentSize q) ?h = is_heap (currentSize q) (heap q)"
    by (rule is_heap_cong_take [OF tk])
  then have "valid ?q"
    using assms len by (simp add: valid_def)
  moreover have "live ?q = live q" using tk by (simp add: live_def)
  ultimately show ?thesis using r by simp
qed

lemma up_ok_append:
  assumes "is_heap n h" and "n < length h"
  shows "up_ok (Suc n) (h[n := d]) n"
proof -
  have "weight (h[n := d] ! parent i) \<le> weight (h[n := d] ! i)" if "1 \<le> i" "i < Suc n" "i \<noteq> n" for i
  proof -
    have "parent i < i" using that by (simp add: parent_less)
    then show ?thesis using that assms by (simp add: is_heap_def)
  qed
  moreover have "parent i \<noteq> n" if "1 \<le> i" "i < Suc n" for i
    using parent_less [of i] that by simp
  ultimately show ?thesis unfolding up_ok_def by blast
qed

text \<open>The call of \<^verbatim>\<open>enqueue\<close> on a full buffer of the largest capacity: the doubled
  capacity does not fit an \<^verbatim>\<open>int\<close>, and \<^verbatim>\<open>resize\<close> raises.\<close>

lemma enqueue_full:
  assumes v: "valid q" and f: "currentSize q = 1677721600"
  shows "enqueue q d = (Inl InvalidResizeError, q)"
proof -
  have c: "capacity q = 1677721600" using v f by (simp add: valid_def)
  have "grow_target q = INT_MIN"
    using v c by (intro grow_target_over) (simp_all add: valid_def INT_MAX_def)
  then have "resize q (grow_target q) = (Inl InvalidResizeError, q)"
    by (simp add: resize_def INT_MIN_def)
  then show ?thesis using f c by (simp add: enqueue_def size_pq_def)
qed

lemma enqueue_valid:
  assumes v: "valid q" and b: "currentSize q < 1677721600"
  shows "\<exists>q'. enqueue q d = (Inr (), q') \<and> valid q' \<and>
              currentSize q' = Suc (currentSize q) \<and>
              mset (live q') = add_mset d (mset (live q)) \<and>
              capacity q' = (if currentSize q = capacity q then 2 * capacity q else capacity q)"
proof -
  let ?c = "if currentSize q = capacity q then 2 * capacity q else capacity q"
  obtain q1 where q1: "(if size_pq q = capacity q then resize q (grow_target q) else (Inr (), q))
                        = (Inr (), q1)"
    and v1: "valid q1" and c1: "capacity q1 = ?c" and s1: "currentSize q1 = currentSize q"
    and l1: "live q1 = live q"
  proof (cases "currentSize q = capacity q")
    case True
    have p: "\<exists>k. capacity q = INITIAL_CAPACITY * 2 ^ k" using v by (simp add: valid_def)
    have lt: "capacity q < 1677721600" using b True by simp
    note d = capacity_double [OF p lt]
    have g: "grow_target q = int (2 * capacity q)"
      using v d by (intro grow_target_2) (simp_all add: valid_def INT_MAX_def)
    from resize_valid [OF v, of "2 * capacity q"] v True d
    obtain q' where "resize q (int (2 * capacity q)) = (Inr (), q')" "valid q'"
      "capacity q' = 2 * capacity q" "currentSize q' = currentSize q" "live q' = live q"
      by (auto simp: valid_def)
    then show ?thesis using that [of q'] True g by (simp add: size_pq_def)
  next
    case False
    then show ?thesis using that [of q] v by (simp add: size_pq_def)
  qed
  let ?n = "currentSize q"
  let ?q3 = "q1\<lparr>heap := (heap q1)[?n := d], currentSize := Suc ?n\<rparr>"
  have lt: "?n < length (heap q1)"
    using v v1 c1 s1 by (auto simp: valid_def INITIAL_CAPACITY_def split: if_splits)
  have e: "enqueue q d = bubbleUp ?q3 ?n"
    using lt by (simp add: enqueue_def q1 s1 Let_def store_inside)
  have h1: "is_heap ?n (heap q1)" using v1 s1 by (simp add: valid_def)
  have up: "up_ok (currentSize ?q3) (heap ?q3) ?n"
    using up_ok_append [OF h1 lt] by simp
  have b: "fst (bubbleUp ?q3 ?n) = Inr () \<and>
        is_heap (Suc ?n) (heap (snd (bubbleUp ?q3 ?n))) \<and>
        length (heap (snd (bubbleUp ?q3 ?n))) = length (heap q1) \<and>
        mset (take (Suc ?n) (heap (snd (bubbleUp ?q3 ?n)))) = mset (take (Suc ?n) ((heap q1)[?n := d]))"
    using bubbleUp_heap [OF up] lt by simp
  let ?r = "snd (bubbleUp ?q3 ?n)"
  have fr: "?r = ?q3\<lparr>heap := heap ?r\<rparr>"
    by (rule bubbleUp_frame)
  have flds: "currentSize ?r = Suc ?n" "capacity ?r = capacity q1"
    "growFactor ?r = growFactor q1" "shrinkThreshold ?r = shrinkThreshold q1"
    by (subst fr, simp)+
  have "take (Suc ?n) ((heap q1)[?n := d]) = take ?n (heap q1) @ [d]"
    using lt by (simp add: take_Suc_conv_app_nth)
  then have m: "mset (live ?r) = add_mset d (mset (live q))"
    using b l1 s1 by (simp add: live_def flds)
  have "valid ?r"
    using v1 b lt by (simp add: valid_def flds)
  moreover have "enqueue q d = (Inr (), ?r)"
    unfolding e using b by (simp add: prod_eq_iff)
  ultimately show ?thesis using m flds c1 by simp
qed

lemma down_ok_root:
  assumes "is_heap (Suc n) h"
  shows "down_ok n (h[0 := x]) 0"
proof -
  have "weight (h[0 := x] ! parent i) \<le> weight (h[0 := x] ! i)"
    if "1 \<le> i" "i < n" "parent i \<noteq> 0" for i
    using that assms by (simp add: is_heap_def)
  then show ?thesis unfolding down_ok_def by simp
qed

lemma mset_take_move_last:
  assumes "n < length h"
  shows "mset (take (Suc n) h) = add_mset (h ! 0) (mset (take n (h[0 := h ! n])))"
proof (cases n)
  case 0
  then show ?thesis using assms by (simp add: take_Suc_conv_app_nth)
next
  case (Suc k)
  have 1: "take (Suc n) h = take n h @ [h ! n]"
    using assms by (simp add: take_Suc_conv_app_nth)
  have 2: "take n (h[0 := h ! n]) = (take n h)[0 := h ! n]"
    by (simp add: take_update_swap)
  have 3: "mset ((take n h)[0 := h ! n]) = add_mset (h ! n) (mset (take n h) - {#take n h ! 0#})"
    using assms Suc by (intro mset_update) simp
  have 4: "take n h ! 0 \<in># mset (take n h)"
    using assms Suc by (intro nth_mem_mset) simp
  have 5: "take n h ! 0 = h ! 0" using Suc by simp
  show ?thesis
    using 4 unfolding 1 2 3 5 by simp
qed

text \<open>The state in which \<^verbatim>\<open>dequeue\<close> calls \<^verbatim>\<open>bubbleDown\<close>.\<close>

lemma remove_root_bubbleDown:
  assumes "0 < currentSize q" and "currentSize q \<le> length (heap q)"
  shows "remove_root q
         = bubbleDown (q\<lparr>heap := (heap q)[0 := heap q ! (currentSize q - 1)],
                          currentSize := currentSize q - 1\<rparr>) 0"
proof -
  have i: "int (currentSize q) - 1 = int (currentSize q - 1)" using assms by simp
  have l: "load (heap q) (int (currentSize q) - 1) = Inr (heap q ! (currentSize q - 1))"
    unfolding i using assms by (intro load_inside) simp
  have s: "store (heap q) 0 d = Inr ((heap q)[0 := d])" for d
    using assms by (auto simp: store_def)
  show ?thesis by (simp add: remove_root_def l s Let_def)
qed

lemma dequeue_valid:
  assumes v: "valid q" and ne: "0 < currentSize q"
  shows "fst (dequeue q) = Inl OutOfBounds \<or>
         (\<exists>q'. dequeue q = (Inr (heap q ! 0), q') \<and> valid q' \<and>
              Suc (currentSize q') = currentSize q \<and>
              mset (live q) = add_mset (heap q ! 0) (mset (live q')) \<and>
              (\<forall>x \<in> set (live q). weight (heap q ! 0) \<le> weight x) \<and>
              capacity q' = (if 4 * (currentSize q - 1) < capacity q
                             then max INITIAL_CAPACITY (capacity q div 2) else capacity q))"
proof -
  obtain n where n: "currentSize q = Suc n" using ne by (cases "currentSize q") auto
  let ?h = "heap q"
  let ?q2 = "q\<lparr>heap := ?h[0 := ?h ! n], currentSize := n\<rparr>"
  let ?q3 = "snd (bubbleDown ?q2 0)"
  have len: "length ?h = capacity q" "Suc n \<le> capacity q" and hp: "is_heap (Suc n) ?h"
    and g: "growFactor q = 2" and t: "shrinkThreshold q = 1 / 4"
    and ic: "INITIAL_CAPACITY \<le> capacity q" and mx: "capacity q \<le> 1677721600"
    and pw: "\<exists>k. capacity q = INITIAL_CAPACITY * 2 ^ k"
    using v n by (simp_all add: valid_def)
  have rr: "remove_root q = bubbleDown ?q2 0"
    using remove_root_bubbleDown [of q] len n by simp
  have l0: "load ?h 0 = Inr (?h ! 0)"
    using load_inside [of 0 ?h] len by simp
  have dn: "down_ok (currentSize ?q2) (heap ?q2) 0"
    using down_ok_root [OF hp] by simp
  have "fst (bubbleDown ?q2 0) = Inl OutOfBounds \<or>
        (fst (bubbleDown ?q2 0) = Inr () \<and>
         is_heap (currentSize ?q2) (heap ?q3) \<and> length (heap ?q3) = length (heap ?q2) \<and>
         mset (take (currentSize ?q2) (heap ?q3)) = mset (take (currentSize ?q2) (heap ?q2)))"
    using len by (intro bubbleDown_heap [OF dn]) (simp_all add: INT_MAX_def)
  then show ?thesis
  proof
    assume "fst (bubbleDown ?q2 0) = Inl OutOfBounds"
    then obtain q3 where "remove_root q = (Inl OutOfBounds, q3)"
      unfolding rr by (cases "bubbleDown ?q2 0") simp
    then have "fst (dequeue q) = Inl OutOfBounds"
      using ne by (simp add: dequeue_def isEmpty_def l0)
    then show ?thesis ..
  next
    assume "fst (bubbleDown ?q2 0) = Inr () \<and>
         is_heap (currentSize ?q2) (heap ?q3) \<and> length (heap ?q3) = length (heap ?q2) \<and>
         mset (take (currentSize ?q2) (heap ?q3)) = mset (take (currentSize ?q2) (heap ?q2))"
    then have ok: "fst (bubbleDown ?q2 0) = Inr ()"
      and b: "is_heap n (heap ?q3) \<and> length (heap ?q3) = length ?h \<and>
           mset (take n (heap ?q3)) = mset (take n (?h[0 := ?h ! n]))"
      by simp_all
    have rr3: "remove_root q = (Inr (), ?q3)"
      unfolding rr using ok by (simp add: prod_eq_iff)
    have fr: "?q3 = ?q2\<lparr>heap := heap ?q3\<rparr>" by (rule bubbleDown_frame)
    have flds: "currentSize ?q3 = n" "capacity ?q3 = capacity q"
      "growFactor ?q3 = 2" "shrinkThreshold ?q3 = 1 / 4"
      by (subst fr, simp add: g t)+
    have v3: "valid ?q3"
      using b len ic mx pw by (simp add: valid_def flds)
    have m3: "mset (live q) = add_mset (?h ! 0) (mset (live ?q3))"
      using mset_take_move_last [of n ?h] len b by (simp add: live_def flds n)
    have root: "\<forall>x \<in> set (live q). weight (?h ! 0) \<le> weight x"
    proof
      fix x assume "x \<in> set (live q)"
      then obtain i where "i < Suc n" "x = ?h ! i"
        using len by (auto simp: live_def n in_set_conv_nth)
      then show "weight (?h ! 0) \<le> weight x"
        using is_heap_root [OF hp, of i] by simp
    qed
    have st: "(of_nat (size_pq ?q3) < shrinkThreshold ?q3 * of_nat (capacity ?q3))
              = (4 * n < capacity q)"
      using shrink_test [of ?q3] by (simp add: flds)
    have d: "dequeue q =
        (if 4 * n < capacity q
         then (case resize ?q3 (shrink_target ?q3) of
                 (Inl e, q4) \<Rightarrow> (Inl e, q4) | (Inr _, q4) \<Rightarrow> (Inr (?h ! 0), q4))
         else (Inr (?h ! 0), ?q3))"
      using ne unfolding dequeue_def isEmpty_def l0 rr3 st [symmetric]
      by simp
    have "\<exists>q'. dequeue q = (Inr (heap q ! 0), q') \<and> valid q' \<and>
              Suc (currentSize q') = currentSize q \<and>
              mset (live q) = add_mset (heap q ! 0) (mset (live q')) \<and>
              (\<forall>x \<in> set (live q). weight (heap q ! 0) \<le> weight x) \<and>
              capacity q' = (if 4 * (currentSize q - 1) < capacity q
                             then max INITIAL_CAPACITY (capacity q div 2) else capacity q)"
    proof (cases "4 * n < capacity q")
      case True
      let ?m = "max INITIAL_CAPACITY (capacity q div 2)"
      have sh: "shrink_target ?q3 = int ?m"
        using shrink_target_2 [of ?q3] mx by (simp add: flds INT_MAX_def)
      have 1: "currentSize ?q3 \<le> ?m" using True by (simp add: flds)
      have 2: "INITIAL_CAPACITY \<le> ?m" by simp
      have 3: "?m \<le> 1677721600" using mx ic by simp
      from resize_valid [OF v3 1 2 3 capacity_halve [OF pw]] obtain q' where
        q': "resize ?q3 (int ?m) = (Inr (), q')" "valid q'" "capacity q' = ?m"
          "currentSize q' = currentSize ?q3" "live q' = live ?q3"
        by auto
      have "dequeue q = (Inr (?h ! 0), q')"
        using True by (simp add: d sh q')
      then show ?thesis
        using q' m3 root True by (simp add: flds n)
    next
      case False
      then have "dequeue q = (Inr (?h ! 0), ?q3)" by (simp add: d)
      then show ?thesis
        using v3 m3 root False by (simp add: flds n)
    qed
    then show ?thesis ..
  qed
qed

text \<open>With at most \<open>2^30\<close> elements no child index of \<^verbatim>\<open>bubbleDown\<close> overflows.\<close>

lemma dequeue_defined:
  assumes v: "valid q" and ne: "0 < currentSize q" and b: "currentSize q \<le> 1073741824"
  shows "fst (dequeue q) \<noteq> Inl OutOfBounds"
proof -
  obtain n where n: "currentSize q = Suc n" using ne by (cases "currentSize q") auto
  let ?h = "heap q"
  let ?q2 = "q\<lparr>heap := ?h[0 := ?h ! n], currentSize := n\<rparr>"
  have len: "length ?h = capacity q" "Suc n \<le> capacity q"
    using v n by (simp_all add: valid_def)
  have rr: "remove_root q = bubbleDown ?q2 0"
    using remove_root_bubbleDown [of q] len n by simp
  have l0: "load ?h 0 = Inr (?h ! 0)"
    using load_inside [of 0 ?h] len by simp
  have "fst (bubbleDown ?q2 0) = Inr ()"
    using len b n by (intro bubbleDown_defined) (simp_all add: INT_MAX_def)
  then obtain q3 where q3: "remove_root q = (Inr (), q3)"
    unfolding rr by (cases "bubbleDown ?q2 0") simp
  have "fst (resize q3 m) \<noteq> Inl OutOfBounds" if "currentSize q3 \<le> length (heap q3)" for m
    using that by (simp add: resize_def Let_def)
  moreover have "currentSize q3 \<le> length (heap q3)"
  proof -
    have "q3 = snd (bubbleDown ?q2 0)" using q3 rr by simp
    moreover note fr = bubbleDown_frame [of ?q2 0]
    moreover have "length (heap (snd (bubbleDown ?q2 0))) = length ?h"
      using bubbleDown_heap [of ?q2 0] down_ok_root [of n ?h "?h ! n"] v n len
        \<open>fst (bubbleDown ?q2 0) = Inr ()\<close>
      by (simp add: valid_def INT_MAX_def)
    moreover have "currentSize (snd (bubbleDown ?q2 0)) = n" by (subst fr) simp
    ultimately show ?thesis using len by simp
  qed
  ultimately have "fst (resize q3 (shrink_target q3)) \<noteq> Inl OutOfBounds" by simp
  then show ?thesis
    using ne by (auto simp: dequeue_def isEmpty_def l0 q3 split: prod.splits sum.splits)
qed

subsection \<open>Sequences of calls\<close>

lemma dequeue_empty: "currentSize q = 0 \<Longrightarrow> dequeue q = (Inl EmptyQueueError, q)"
  by (simp add: dequeue_def isEmpty_def)

lemma peek_empty: "currentSize q = 0 \<Longrightarrow> peek q = (Inl EmptyQueueError, q)"
  by (simp add: peek_def isEmpty_def)

lemma peek_nonempty:
  "0 < currentSize q \<Longrightarrow> currentSize q \<le> length (heap q) \<Longrightarrow> peek q = (Inr (heap q ! 0), q)"
  by (auto simp: peek_def isEmpty_def load_def)

lemma root_live: "0 < currentSize q \<Longrightarrow> currentSize q \<le> length (heap q) \<Longrightarrow> heap q ! 0 \<in> set (live q)"
  by (auto simp: live_def in_set_conv_nth intro!: exI [of _ 0])


lemma remove_root_shape:
  assumes "valid q" and "0 < currentSize q"
  shows "Suc (currentSize (snd (remove_root q))) = currentSize q"
    and "capacity (snd (remove_root q)) = capacity q"
    and "shrinkThreshold (snd (remove_root q)) = 1 / 4"
    and "growFactor (snd (remove_root q)) = 2"
proof -
  let ?q2 = "q\<lparr>heap := (heap q)[0 := heap q ! (currentSize q - 1)],
               currentSize := currentSize q - 1\<rparr>"
  have rr: "remove_root q = bubbleDown ?q2 0"
    using assms by (intro remove_root_bubbleDown) (simp_all add: valid_def)
  have fr: "snd (bubbleDown ?q2 0) = ?q2\<lparr>heap := heap (snd (bubbleDown ?q2 0))\<rparr>"
    by (rule bubbleDown_frame)
  show "Suc (currentSize (snd (remove_root q))) = currentSize q"
    unfolding rr using assms by (subst fr) simp
  show "capacity (snd (remove_root q)) = capacity q"
    unfolding rr by (subst fr) simp
  show "shrinkThreshold (snd (remove_root q)) = 1 / 4"
    unfolding rr using assms by (subst fr) (simp add: valid_def)
  show "growFactor (snd (remove_root q)) = 2"
    unfolding rr using assms by (subst fr) (simp add: valid_def)
qed

lemma remove_root_defined:
  assumes "valid q" and "0 < currentSize q" and "currentSize q \<le> 1073741824"
  shows "fst (remove_root q) = Inr ()"
proof -
  let ?q2 = "q\<lparr>heap := (heap q)[0 := heap q ! (currentSize q - 1)],
               currentSize := currentSize q - 1\<rparr>"
  have rr: "remove_root q = bubbleDown ?q2 0"
    using assms by (intro remove_root_bubbleDown) (simp_all add: valid_def)
  have "currentSize q \<le> length (heap q)" using assms(1) by (simp add: valid_def)
  then show ?thesis
    unfolding rr using assms(2,3) by (intro bubbleDown_defined) (simp_all add: INT_MAX_def)
qed

lemma shrinks_iff:
  assumes "valid q" and "currentSize q \<le> 1073741824"
  shows "shrinks q c \<longleftrightarrow> c = Dequeue \<and> 0 < currentSize q \<and> 4 * (currentSize q - 1) < capacity q"
proof (cases "0 < currentSize q")
  case True
  note s = remove_root_shape [OF assms(1) True]
  obtain q3 where q3: "remove_root q = (Inr (), q3)"
    using remove_root_defined [OF assms(1) True assms(2)] by (cases "remove_root q") simp
  have "currentSize q3 = currentSize q - 1" "capacity q3 = capacity q" "shrinkThreshold q3 = 1 / 4"
    using s q3 by simp_all
  then show ?thesis
    using True shrink_test [of q3] by (simp add: shrinks_def isEmpty_def q3)
next
  case False
  then show ?thesis by (simp add: shrinks_def isEmpty_def)
qed

lemma call_Enqueue:
  assumes "valid q" and "currentSize q < 1677721600"
  shows "\<exists>q'. call q (Enqueue d) = (Inr None, q') \<and> valid q' \<and>
              currentSize q' = Suc (currentSize q) \<and>
              mset (live q') = add_mset d (mset (live q)) \<and>
              capacity q' = (if currentSize q = capacity q then 2 * capacity q else capacity q)"
  using enqueue_valid [OF assms, of d] by auto

lemma call_Enqueue_full:
  assumes "valid q" and "currentSize q = 1677721600"
  shows "call q (Enqueue d) = (Inl InvalidResizeError, q)"
  using enqueue_full [OF assms, of d] by simp

lemma call_Dequeue:
  assumes "valid q" and "0 < currentSize q"
  shows "fst (call q Dequeue) = Inl OutOfBounds \<or>
         (\<exists>q'. call q Dequeue = (Inr (Some (heap q ! 0)), q') \<and> valid q' \<and>
              Suc (currentSize q') = currentSize q \<and>
              mset (live q) = add_mset (heap q ! 0) (mset (live q')) \<and>
              (\<forall>x \<in> set (live q). weight (heap q ! 0) \<le> weight x) \<and>
              capacity q' = (if 4 * (currentSize q - 1) < capacity q
                             then max INITIAL_CAPACITY (capacity q div 2) else capacity q))"
proof -
  from dequeue_valid [OF assms] show ?thesis
  proof
    assume "fst (dequeue q) = Inl OutOfBounds"
    then have "fst (call q Dequeue) = Inl OutOfBounds"
      by (cases "dequeue q") simp
    then show ?thesis ..
  next
    assume "\<exists>q'. dequeue q = (Inr (heap q ! 0), q') \<and> valid q' \<and>
              Suc (currentSize q') = currentSize q \<and>
              mset (live q) = add_mset (heap q ! 0) (mset (live q')) \<and>
              (\<forall>x \<in> set (live q). weight (heap q ! 0) \<le> weight x) \<and>
              capacity q' = (if 4 * (currentSize q - 1) < capacity q
                             then max INITIAL_CAPACITY (capacity q div 2) else capacity q)"
    then obtain q' where q': "dequeue q = (Inr (heap q ! 0), q')" "valid q'"
      "Suc (currentSize q') = currentSize q"
      "mset (live q) = add_mset (heap q ! 0) (mset (live q'))"
      "\<forall>x \<in> set (live q). weight (heap q ! 0) \<le> weight x"
      "capacity q' = (if 4 * (currentSize q - 1) < capacity q
                             then max INITIAL_CAPACITY (capacity q div 2) else capacity q)"
      by blast
    have "call q Dequeue = (Inr (Some (heap q ! 0)), q')" using q'(1) by simp
    with q'(2-6) show ?thesis by blast
  qed
qed

lemma call_Dequeue_defined:
  assumes "valid q" and "0 < currentSize q" and "currentSize q \<le> 1073741824"
  shows "\<exists>q'. call q Dequeue = (Inr (Some (heap q ! 0)), q') \<and> valid q' \<and>
              Suc (currentSize q') = currentSize q \<and>
              mset (live q) = add_mset (heap q ! 0) (mset (live q')) \<and>
              (\<forall>x \<in> set (live q). weight (heap q ! 0) \<le> weight x) \<and>
              capacity q' = (if 4 * (currentSize q - 1) < capacity q
                             then max INITIAL_CAPACITY (capacity q div 2) else capacity q)"
proof -
  have "fst (call q Dequeue) \<noteq> Inl OutOfBounds"
    using dequeue_defined [OF assms] by (cases "dequeue q" ; cases "fst (dequeue q)") auto
  with call_Dequeue [OF assms(1,2)] show ?thesis by blast
qed

lemma call_Dequeue_empty:
  "currentSize q = 0 \<Longrightarrow> call q Dequeue = (Inl EmptyQueueError, q)"
  by (simp add: dequeue_empty)

lemma call_Peek: "snd (call q Peek) = q"
  by (cases "load (heap q) 0") (simp_all add: peek_def)

lemma call_Peek_valid: "valid q \<Longrightarrow> fst (call q Peek) \<noteq> Inl OutOfBounds"
proof (cases "currentSize q = 0")
  case True
  then show ?thesis by (simp add: peek_empty)
next
  case False
  assume "valid q"
  then have "peek q = (Inr (heap q ! 0), q)"
    using False by (intro peek_nonempty) (simp_all add: valid_def)
  then show ?thesis by simp
qed

lemma call_valid: "valid q \<Longrightarrow> fst (call q c) \<noteq> Inl OutOfBounds \<Longrightarrow> valid (snd (call q c))"
proof (cases c)
  case Peek
  assume "valid q"
  then show ?thesis using Peek by (simp only: call_Peek)
next
  case (Enqueue d)
  assume v: "valid q"
  show ?thesis
  proof (cases "currentSize q < 1677721600")
    case True
    from call_Enqueue [OF v True, of d] Enqueue show ?thesis by auto
  next
    case False
    then have "currentSize q = 1677721600" using v by (simp add: valid_def)
    from call_Enqueue_full [OF v this, of d] Enqueue v show ?thesis by simp
  qed
next
  case Dequeue
  assume v: "valid q" and ok: "fst (call q c) \<noteq> Inl OutOfBounds"
  show ?thesis
  proof (cases "currentSize q = 0")
    case True
    then show ?thesis using v Dequeue by (simp add: dequeue_empty)
  next
    case False
    then have "0 < currentSize q" by simp
    from call_Dequeue [OF v this] ok Dequeue show ?thesis by auto
  qed
qed

lemma call_defined:
  assumes "valid q" and "currentSize q \<le> 1073741824"
  shows "fst (call q c) \<noteq> Inl OutOfBounds"
proof (cases c)
  case Peek
  then show ?thesis using call_Peek_valid [OF assms(1)] by simp
next
  case (Enqueue d)
  have "currentSize q < 1677721600" using assms(2) by simp
  from call_Enqueue [OF assms(1) this, of d] Enqueue show ?thesis by auto
next
  case Dequeue
  show ?thesis
  proof (cases "currentSize q = 0")
    case True
    then show ?thesis using Dequeue by (simp add: dequeue_empty)
  next
    case False
    then have "0 < currentSize q" by simp
    from call_Dequeue_defined [OF assms(1) this assms(2)] Dequeue show ?thesis by auto
  qed
qed

lemma call_shape:
  assumes "valid q" and "currentSize q \<le> 1073741824"
  shows "(currentSize (snd (call q c)), capacity (snd (call q c)))
         = shape_call (currentSize q, capacity q) c"
proof (cases c)
  case Peek
  then show ?thesis by (simp only: call_Peek shape_call.simps)
next
  case (Enqueue d)
  have "currentSize q < 1677721600" using assms(2) by simp
  from call_Enqueue [OF assms(1) this, of d] Enqueue show ?thesis by auto
next
  case Dequeue
  show ?thesis
  proof (cases "currentSize q = 0")
    case True
    then show ?thesis using Dequeue by (simp add: dequeue_empty)
  next
    case False
    then have p: "0 < currentSize q" by simp
    from call_Dequeue_defined [OF assms(1) p assms(2)] obtain q' where
      "call q Dequeue = (Inr (Some (heap q ! 0)), q')" "Suc (currentSize q') = currentSize q"
      "capacity q' = (if 4 * (currentSize q - 1) < capacity q
                      then max INITIAL_CAPACITY (capacity q div 2) else capacity q)"
      by blast
    then show ?thesis using Dequeue False by auto
  qed
qed

lemma call_size:
  assumes "valid q" and "fst (call q c) \<noteq> Inl OutOfBounds"
  shows "currentSize (snd (call q c)) \<le> currentSize q + (if is_enqueue c then 1 else 0)"
proof (cases c)
  case Peek
  then show ?thesis by (simp only: call_Peek)
next
  case (Enqueue d)
  show ?thesis
  proof (cases "currentSize q < 1677721600")
    case True
    from call_Enqueue [OF assms(1) True, of d] Enqueue show ?thesis by auto
  next
    case False
    then have "currentSize q = 1677721600" using assms(1) by (simp add: valid_def)
    from call_Enqueue_full [OF assms(1) this, of d] Enqueue show ?thesis by simp
  qed
next
  case Dequeue
  show ?thesis
  proof (cases "currentSize q = 0")
    case True
    then show ?thesis using Dequeue by (simp add: dequeue_empty)
  next
    case False
    then have "0 < currentSize q" by simp
    from call_Dequeue [OF assms(1) this] assms(2) Dequeue show ?thesis by auto
  qed
qed

lemma exec_Nil [simp]: "exec q [] = q"
  by (simp add: exec_def)

lemma exec_Cons:
  "exec q (c # cs) = (if fst (call q c) = Inl OutOfBounds then q else exec (snd (call q c)) cs)"
  by (simp add: exec_def split: prod.split)

lemma exec_step:
  "fst (call q c) \<noteq> Inl OutOfBounds \<Longrightarrow> exec q (c # cs) = exec (snd (call q c)) cs"
  by (simp add: exec_Cons)

lemma exec_valid: "valid q \<Longrightarrow> valid (exec q cs)"
proof (induction cs arbitrary: q)
  case Nil
  then show ?case by simp
next
  case (Cons c cs)
  show ?case
  proof (cases "fst (call q c) = Inl OutOfBounds")
    case True
    then show ?thesis using Cons.prems by (simp add: exec_Cons)
  next
    case False
    from Cons.IH [OF call_valid [OF Cons.prems False]] False show ?thesis
      by (simp add: exec_Cons)
  qed
qed

lemma reachable_valid: "valid (exec HeapPQueue_new cs)"
  by (rule exec_valid [OF valid_new])

text \<open>
  Where the natural numbers of the model are the \<^verbatim>\<open>int\<close>s of the code: in every reachable
  state the size, the capacity and the length of the buffer are at most \<open>INT_MAX\<close>.
\<close>

lemma reachable_int_range:
  "int (currentSize (exec HeapPQueue_new cs)) \<le> INT_MAX \<and>
   int (capacity (exec HeapPQueue_new cs)) \<le> INT_MAX \<and>
   int (length (heap (exec HeapPQueue_new cs))) \<le> INT_MAX"
  using reachable_valid [of cs] by (simp add: valid_def INT_MAX_def)

lemma exec_shape:
  "valid q \<Longrightarrow> currentSize q + length (filter is_enqueue cs) \<le> 1073741824 \<Longrightarrow>
   (currentSize (exec q cs), capacity (exec q cs)) = shape_exec (currentSize q, capacity q) cs"
proof (induction cs arbitrary: q)
  case Nil
  then show ?case by simp
next
  case (Cons c cs)
  have b: "currentSize q \<le> 1073741824" using Cons.prems(2) by simp
  note d = call_defined [OF Cons.prems(1) b, of c]
  have v: "valid (snd (call q c))" using Cons.prems(1) d by (rule call_valid)
  have "currentSize (snd (call q c)) + length (filter is_enqueue cs) \<le> 1073741824"
    using call_size [OF Cons.prems(1) d] Cons.prems(2) by (simp split: if_splits)
  from Cons.IH [OF v this] show ?case
    by (simp add: exec_step [OF d] call_shape [OF Cons.prems(1) b])
qed

lemma grow_calls_shape:
  "valid q \<Longrightarrow> currentSize q + length (filter is_enqueue cs) \<le> 1073741824 \<Longrightarrow>
   grow_calls q cs = shape_grows (currentSize q, capacity q) cs"
proof (induction cs arbitrary: q)
  case Nil
  then show ?case by simp
next
  case (Cons c cs)
  have b: "currentSize q \<le> 1073741824" using Cons.prems(2) by simp
  note d = call_defined [OF Cons.prems(1) b, of c]
  have v: "valid (snd (call q c))" using Cons.prems(1) d by (rule call_valid)
  have s: "currentSize (snd (call q c)) + length (filter is_enqueue cs) \<le> 1073741824"
    using call_size [OF Cons.prems(1) d] Cons.prems(2) by (simp split: if_splits)
  obtain r q1 where c: "call q c = (r, q1)" by (cases "call q c")
  have sh: "shape_call (currentSize q, capacity q) c = (currentSize q1, capacity q1)"
    using call_shape [OF Cons.prems(1) b, of c] c by simp
  from Cons.IH [OF v s] d show ?case
    unfolding c by (simp add: c sh grows_def size_pq_def)
qed

lemma shrink_calls_shape:
  "valid q \<Longrightarrow> currentSize q + length (filter is_enqueue cs) \<le> 1073741824 \<Longrightarrow>
   shrink_calls q cs = shape_shrinks (currentSize q, capacity q) cs"
proof (induction cs arbitrary: q)
  case Nil
  then show ?case by simp
next
  case (Cons c cs)
  have b: "currentSize q \<le> 1073741824" using Cons.prems(2) by simp
  note d = call_defined [OF Cons.prems(1) b, of c]
  have v: "valid (snd (call q c))" using Cons.prems(1) d by (rule call_valid)
  have s: "currentSize (snd (call q c)) + length (filter is_enqueue cs) \<le> 1073741824"
    using call_size [OF Cons.prems(1) d] Cons.prems(2) by (simp split: if_splits)
  obtain r q1 where c: "call q c = (r, q1)" by (cases "call q c")
  have sh: "shape_call (currentSize q, capacity q) c = (currentSize q1, capacity q1)"
    using call_shape [OF Cons.prems(1) b, of c] c by simp
  from Cons.IH [OF v s] d show ?case
    unfolding c by (simp add: c sh shrinks_iff [OF Cons.prems(1) b])
qed

lemma enqueue_all_exec:
  "valid q \<Longrightarrow> currentSize q + length xs \<le> 1677721600 \<Longrightarrow>
   enqueue_all q xs = (Inr (), exec q (map Enqueue xs)) \<and>
   currentSize (exec q (map Enqueue xs)) = currentSize q + length xs \<and>
   mset (live (exec q (map Enqueue xs))) = mset xs + mset (live q)"
proof (induction xs arbitrary: q)
  case Nil
  then show ?case by simp
next
  case (Cons d ds)
  have "currentSize q < 1677721600" using Cons.prems(2) by simp
  from enqueue_valid [OF Cons.prems(1) this, of d] obtain q' where
    q': "enqueue q d = (Inr (), q')" "valid q'" "currentSize q' = Suc (currentSize q)"
      "mset (live q') = add_mset d (mset (live q))"
    by blast
  have "currentSize q' + length ds \<le> 1677721600" using q'(3) Cons.prems(2) by simp
  from Cons.IH [OF q'(2) this] q' show ?case by (simp add: exec_Cons)
qed

lemma dequeue_n_exec:
  "valid q \<Longrightarrow> k \<le> currentSize q \<Longrightarrow> currentSize q \<le> 1073741824 \<Longrightarrow>
   \<exists>ds. dequeue_n q k = (Inr ds, exec q (replicate k Dequeue)) \<and> length ds = k \<and>
        currentSize (exec q (replicate k Dequeue)) + k = currentSize q \<and>
        mset (live q) = mset ds + mset (live (exec q (replicate k Dequeue))) \<and>
        sorted (map weight ds) \<and>
        (\<forall>d \<in> set ds. \<forall>x \<in> set (live (exec q (replicate k Dequeue))). weight d \<le> weight x)"
proof (induction k arbitrary: q)
  case 0
  then show ?case by simp
next
  case (Suc k)
  have p: "0 < currentSize q" using Suc.prems by simp
  from call_Dequeue_defined [OF Suc.prems(1) p Suc.prems(3)] obtain q' where
    c: "call q Dequeue = (Inr (Some (heap q ! 0)), q')" and
    q': "valid q'" "Suc (currentSize q') = currentSize q"
      "mset (live q) = add_mset (heap q ! 0) (mset (live q'))"
      "\<forall>x \<in> set (live q). weight (heap q ! 0) \<le> weight x"
    by blast
  have dq: "dequeue q = (Inr (heap q ! 0), q')"
    using c by (cases "dequeue q"; cases "fst (dequeue q)") auto
  have k: "k \<le> currentSize q'" "currentSize q' \<le> 1073741824" using Suc.prems q'(2) by simp_all
  let ?e = "exec q' (replicate k Dequeue)"
  from Suc.IH [OF q'(1) k] obtain ds where
    ds: "dequeue_n q' k = (Inr ds, ?e)" "length ds = k" "currentSize ?e + k = currentSize q'"
      "mset (live q') = mset ds + mset (live ?e)" "sorted (map weight ds)"
      "\<forall>d \<in> set ds. \<forall>x \<in> set (live ?e). weight d \<le> weight x"
    by blast
  have sub: "set ds \<union> set (live ?e) \<subseteq> set (live q)"
  proof -
    have "set_mset (mset (live q)) = insert (heap q ! 0) (set ds \<union> set (live ?e))"
      unfolding q'(3) ds(4) by simp
    then show ?thesis by auto
  qed
  have e: "exec q (replicate (Suc k) Dequeue) = ?e" using c by (simp add: exec_Cons)
  have "dequeue_n q (Suc k) = (Inr (heap q ! 0 # ds), ?e)"
    using dq ds(1) by simp
  moreover have "sorted (map weight (heap q ! 0 # ds))"
    using ds(5) q'(4) sub by auto
  moreover have "\<forall>d \<in> set (heap q ! 0 # ds). \<forall>x \<in> set (live ?e). weight d \<le> weight x"
    using ds(6) q'(4) sub by auto
  moreover have "mset (live q) = mset (heap q ! 0 # ds) + mset (live ?e)"
    unfolding q'(3) ds(4) by simp
  ultimately show ?case
    unfolding e using ds(2,3) q'(2) by auto
qed

lemma drain_empty: "currentSize q = 0 \<Longrightarrow> drain q = (Inr [], q)"
  by (subst drain.simps) (simp add: isEmpty_def)

lemma drain_valid:
  "valid q \<Longrightarrow> currentSize q = n \<Longrightarrow> n \<le> 1073741824 \<Longrightarrow>
   \<exists>ds q'. drain q = (Inr ds, q') \<and> valid q' \<and> currentSize q' = 0 \<and> length ds = n \<and>
           mset ds = mset (live q) \<and> sorted (map weight ds) \<and>
           q' = exec q (replicate n Dequeue)"
proof (induction n arbitrary: q)
  case 0
  then show ?case by (simp add: drain_empty live_def)
next
  case (Suc n)
  have p: "0 < currentSize q" and b: "currentSize q \<le> 1073741824" using Suc.prems by simp_all
  from call_Dequeue_defined [OF Suc.prems(1) p b] obtain q1 where
    c: "call q Dequeue = (Inr (Some (heap q ! 0)), q1)" and
    q1: "valid q1" "Suc (currentSize q1) = currentSize q"
      "mset (live q) = add_mset (heap q ! 0) (mset (live q1))"
      "\<forall>x \<in> set (live q). weight (heap q ! 0) \<le> weight x"
    by blast
  have dq: "dequeue q = (Inr (heap q ! 0), q1)"
    using c by (cases "dequeue q"; cases "fst (dequeue q)") auto
  have n: "currentSize q1 = n" "n \<le> 1073741824" using Suc.prems q1(2) by simp_all
  from Suc.IH [OF q1(1) n] obtain ds q' where
    ds: "drain q1 = (Inr ds, q')" "valid q'" "currentSize q' = 0" "length ds = n"
      "mset ds = mset (live q1)" "sorted (map weight ds)" "q' = exec q1 (replicate n Dequeue)"
    by blast
  have "set ds \<subseteq> set (live q)"
  proof -
    have "set_mset (mset (live q)) = insert (heap q ! 0) (set ds)"
      unfolding q1(3) ds(5) [symmetric] by simp
    then show ?thesis by auto
  qed
  then have "sorted (map weight (heap q ! 0 # ds))"
    using ds(6) q1(4) by auto
  moreover have "drain q = (Inr (heap q ! 0 # ds), q')"
    using p dq ds(1) by (subst drain.simps) (simp add: isEmpty_def)
  moreover have "mset (heap q ! 0 # ds) = mset (live q)"
    unfolding q1(3) using ds(5) by simp
  moreover have "q' = exec q (replicate (Suc n) Dequeue)"
    using ds(7) c by (simp add: exec_Cons)
  ultimately show ?case using ds(2,3,4) by simp
qed

text \<open>Draining a reachable queue ends: with the elements in order, or at an access
  outside the buffer. Either way the queue it leaves after the last call that returned
  an element is as large as the calls that remain to be made.\<close>

lemma drain_size:
  "valid q \<Longrightarrow> fst (drain q) = Inr ds \<Longrightarrow> currentSize (snd (drain q)) = 0"
proof (induction "currentSize q" arbitrary: q ds)
  case 0
  then show ?case by (simp add: drain_empty)
next
  case (Suc n)
  have p: "0 < currentSize q" using Suc.hyps(2) by simp
  from dequeue_valid [OF Suc.prems(1) p] show ?case
  proof
    assume "fst (dequeue q) = Inl OutOfBounds"
    then have "fst (drain q) = Inl OutOfBounds"
      using p by (subst drain.simps) (auto simp: isEmpty_def split: prod.splits sum.splits)
    then show ?thesis using Suc.prems(2) by simp
  next
    assume "\<exists>q'. dequeue q = (Inr (heap q ! 0), q') \<and> valid q' \<and>
              Suc (currentSize q') = currentSize q \<and>
              mset (live q) = add_mset (heap q ! 0) (mset (live q')) \<and>
              (\<forall>x \<in> set (live q). weight (heap q ! 0) \<le> weight x) \<and>
              capacity q' = (if 4 * (currentSize q - 1) < capacity q
                             then max INITIAL_CAPACITY (capacity q div 2) else capacity q)"
    then obtain q' where q': "dequeue q = (Inr (heap q ! 0), q')" "valid q'"
      "Suc (currentSize q') = currentSize q" by blast
    have n: "n = currentSize q'" using q'(3) Suc.hyps(2) by simp
    have d: "drain q = (case drain q' of (Inl e, q2) \<Rightarrow> (Inl e, q2)
                         | (Inr ds, q2) \<Rightarrow> (Inr (heap q ! 0 # ds), q2))"
      using p q'(1) by (subst drain.simps) (simp add: isEmpty_def)
    obtain r q2 where r: "drain q' = (r, q2)" by (cases "drain q'")
    show ?thesis
    proof (cases r)
      case (Inl e)
      then show ?thesis using Suc.prems(2) d r by simp
    next
      case (Inr ds')
      then have "currentSize (snd (drain q')) = 0"
        using Suc.hyps(1) [OF n q'(2), of ds'] r by simp
      then show ?thesis using d r Inr by simp
    qed
  qed
qed

subsection \<open>The factors\<close>

lemma frame_fields:
  "q' = q\<lparr>heap := h\<rparr> \<Longrightarrow> growFactor q' = growFactor q \<and> shrinkThreshold q' = shrinkThreshold q"
  by simp

lemma bubbleUp_factors:
  "growFactor (snd (bubbleUp q k)) = growFactor q \<and>
   shrinkThreshold (snd (bubbleUp q k)) = shrinkThreshold q"
  by (rule frame_fields [OF bubbleUp_frame])

lemma bubbleDown_factors:
  "growFactor (snd (bubbleDown q k)) = growFactor q \<and>
   shrinkThreshold (snd (bubbleDown q k)) = shrinkThreshold q"
  by (rule frame_fields [OF bubbleDown_frame])

lemma resize_factors:
  "growFactor (snd (resize q n)) = growFactor q \<and>
   shrinkThreshold (snd (resize q n)) = shrinkThreshold q"
  by (simp add: resize_def Let_def)

lemma remove_root_factors:
  "growFactor (snd (remove_root q)) = growFactor q \<and>
   shrinkThreshold (snd (remove_root q)) = shrinkThreshold q"
  by (simp add: remove_root_def Let_def bubbleDown_factors split: sum.split)

lemma enqueue_factors:
  "growFactor (snd (enqueue q d)) = growFactor q \<and>
   shrinkThreshold (snd (enqueue q d)) = shrinkThreshold q"
proof -
  define g where "g = (if size_pq q = capacity q then resize q (grow_target q) else (Inr (), q))"
  obtain r q1 where r: "g = (r, q1)" by (cases g)
  have f1: "growFactor q1 = growFactor q \<and> shrinkThreshold q1 = shrinkThreshold q"
    using resize_factors [of q "grow_target q"] r by (auto simp: g_def split: if_splits)
  have e: "enqueue q d = (case g of
        (Inl e, q1) \<Rightarrow> (Inl e, q1)
      | (Inr _, q1) \<Rightarrow>
          (case store (heap q1) (int (currentSize q1)) d of
             Inl e \<Rightarrow> (Inl e, q1)
           | Inr h \<Rightarrow>
               let q2 = q1\<lparr>heap := h\<rparr>;
                   q3 = q2\<lparr>currentSize := currentSize q2 + 1\<rparr>
               in bubbleUp q3 (currentSize q3 - 1)))"
    by (simp only: enqueue_def g_def)
  show ?thesis
    unfolding e r using f1
    by (cases r; cases "store (heap q1) (int (currentSize q1)) d")
       (simp_all add: Let_def bubbleUp_factors)
qed

lemma dequeue_factors:
  "growFactor (snd (dequeue q)) = growFactor q \<and>
   shrinkThreshold (snd (dequeue q)) = shrinkThreshold q"
proof (cases "isEmpty q")
  case True
  then show ?thesis by (simp add: dequeue_def)
next
  case False
  show ?thesis
  proof (cases "load (heap q) 0")
    case (Inl e)
    then show ?thesis using False by (simp add: dequeue_def)
  next
    case (Inr rootPoint)
    obtain r3 q3 where q3: "remove_root q = (r3, q3)" by (cases "remove_root q")
    have f3: "growFactor q3 = growFactor q \<and> shrinkThreshold q3 = shrinkThreshold q"
      using remove_root_factors [of q] q3 by simp
    obtain r q4 where r: "resize q3 (shrink_target q3) = (r, q4)"
      by (cases "resize q3 (shrink_target q3)")
    then have "growFactor q4 = growFactor q3 \<and> shrinkThreshold q4 = shrinkThreshold q3"
      using resize_factors [of q3 "shrink_target q3"] by simp
    then show ?thesis
      using False Inr q3 f3 r by (cases r3; cases r) (simp_all add: dequeue_def)
  qed
qed

lemma call_factors:
  "growFactor (snd (call q c)) = growFactor q \<and>
   shrinkThreshold (snd (call q c)) = shrinkThreshold q"
proof (cases c)
  case (Enqueue d)
  obtain r q1 where e: "enqueue q d = (r, q1)" by (cases "enqueue q d")
  then show ?thesis using enqueue_factors [of q d] Enqueue by (cases r) simp_all
next
  case Dequeue
  obtain r q1 where e: "dequeue q = (r, q1)" by (cases "dequeue q")
  then show ?thesis using dequeue_factors [of q] Dequeue by (cases r) simp_all
next
  case Peek
  then show ?thesis by (simp only: call_Peek simp_thms)
qed

lemma exec_factors:
  "growFactor (exec q cs) = growFactor q \<and> shrinkThreshold (exec q cs) = shrinkThreshold q"
  by (induction cs arbitrary: q) (simp_all add: exec_Cons call_factors)

subsection \<open>Counting the calls that returned\<close>

lemma run_counts:
  "valid q \<Longrightarrow>
   currentSize (snd (run q cs)) + dequeues_returned cs (fst (run q cs))
     = currentSize q + enqueues_returned cs (fst (run q cs))"
proof (induction cs arbitrary: q)
  case Nil
  then show ?case by (simp add: enqueues_returned_def dequeues_returned_def)
next
  case (Cons c cs)
  obtain r q1 where c: "call q c = (r, q1)" by (cases "call q c")
  show ?case
  proof (cases "r = Inl OutOfBounds")
    case True
    then have "run q (c # cs) = ([Inl OutOfBounds], q)" using c by simp
    then show ?thesis by (simp add: enqueues_returned_def dequeues_returned_def)
  next
    case False
    obtain rs q2 where r: "run q1 cs = (rs, q2)" by (cases "run q1 cs")
    have ok: "fst (call q c) \<noteq> Inl OutOfBounds" using c False by simp
    have v1: "valid q1" using call_valid [OF Cons.prems ok] c by simp
    note ih = Cons.IH [OF v1, unfolded r fst_conv snd_conv]
    have e: "run q (c # cs) = (r # rs, q2)" using c r False by simp
    show ?thesis
    proof (cases c)
      case Peek
      then have "q1 = q" using c call_Peek [of q] by simp
      then show ?thesis
        using ih Peek unfolding e by (simp add: enqueues_returned_def dequeues_returned_def)
    next
      case (Enqueue d)
      show ?thesis
      proof (cases "currentSize q < 1677721600")
        case True
        from call_Enqueue [OF Cons.prems True, of d] c Enqueue
        have "r = Inr None" "currentSize q1 = Suc (currentSize q)" by auto
        then show ?thesis
          using ih Enqueue unfolding e by (simp add: enqueues_returned_def dequeues_returned_def)
      next
        case full: False
        then have "currentSize q = 1677721600" using Cons.prems by (simp add: valid_def)
        from call_Enqueue_full [OF Cons.prems this, of d] c Enqueue
        have "r = Inl InvalidResizeError" "q1 = q" by auto
        then show ?thesis
          using ih Enqueue unfolding e by (simp add: enqueues_returned_def dequeues_returned_def)
      qed
    next
      case Dequeue
      show ?thesis
      proof (cases "currentSize q = 0")
        case True
        then have "r = Inl EmptyQueueError" "q1 = q"
          using c Dequeue by (simp_all add: dequeue_empty)
        then show ?thesis
          using ih Dequeue unfolding e by (simp add: enqueues_returned_def dequeues_returned_def)
      next
        case ne: False
        then have p: "0 < currentSize q" by simp
        from call_Dequeue [OF Cons.prems p] c Dequeue False
        have "r = Inr (Some (heap q ! 0))" "Suc (currentSize q1) = currentSize q" by auto
        then show ?thesis
          using ih Dequeue unfolding e by (simp add: enqueues_returned_def dequeues_returned_def)
      qed
    qed
  qed
qed

lemma run_complete:
  "valid q \<Longrightarrow> currentSize q + length (filter is_enqueue cs) \<le> 1073741824 \<Longrightarrow>
   length (fst (run q cs)) = length cs \<and>
   Inl OutOfBounds \<notin> set (fst (run q cs)) \<and>
   enqueues_returned cs (fst (run q cs)) = length (filter is_enqueue cs)"
proof (induction cs arbitrary: q)
  case Nil
  then show ?case by (simp add: enqueues_returned_def)
next
  case (Cons c cs)
  have b: "currentSize q \<le> 1073741824" using Cons.prems(2) by simp
  note d = call_defined [OF Cons.prems(1) b, of c]
  have v: "valid (snd (call q c))" using Cons.prems(1) d by (rule call_valid)
  have s: "currentSize (snd (call q c)) + length (filter is_enqueue cs) \<le> 1073741824"
    using call_size [OF Cons.prems(1) d] Cons.prems(2) by (simp split: if_splits)
  obtain r q1 where c: "call q c = (r, q1)" by (cases "call q c")
  obtain rs q2 where r: "run q1 cs = (rs, q2)" by (cases "run q1 cs")
  have e: "run q (c # cs) = (r # rs, q2)" using c r d by simp
  note ih = Cons.IH [OF v s, unfolded c snd_conv r fst_conv]
  have ret: "is_enqueue c \<Longrightarrow> returned r"
  proof -
    assume "is_enqueue c"
    then obtain x where x: "c = Enqueue x" by (cases c) simp_all
    have "currentSize q < 1677721600" using b by simp
    from call_Enqueue [OF Cons.prems(1) this, of x] c x show "returned r" by auto
  qed
  show ?case
    unfolding e using ih d c ret by (auto simp: enqueues_returned_def)
qed

subsection \<open>The elements of the tests\<close>

lemma live_new: "live HeapPQueue_new = []"
  by (simp add: live_def HeapPQueue_new_def)

lemma length_points [simp]: "length (points f a b) = b - a"
  by (simp add: points_def)

lemma weights_points: "map weight (points f a b) = map int [a..<b]"
  by (simp add: points_def comp_def)

lemma sorted_weights_points: "sorted (map weight (points f a b))"
  unfolding weights_points by (simp add: sorted_map)

lemma points_append: "a \<le> b \<Longrightarrow> b \<le> c \<Longrightarrow> points f a c = points f a b @ points f b c"
proof -
  assume "a \<le> b" "b \<le> c"
  then have "[a..<c] = [a..<b] @ [b..<c]"
    using upt_add_eq_append [of a b "c - b"] by simp
  then show ?thesis by (simp add: points_def)
qed

lemma sorted_points_unique:
  assumes s: "sorted (map weight ds)" and m: "mset ds = mset (points f a b)"
  shows "ds = points f a b"
proof -
  define g where "g w = \<lparr>name = f (nat w), weight = w\<rparr>" for w
  have "mset (map weight ds) = mset (map weight (points f a b))"
    using arg_cong [OF m, of "image_mset weight"] by simp
  from properties_for_sort [OF this s] sorted_weights_points [of f a b]
  have w: "map weight ds = map weight (points f a b)"
    by (simp add: sorted_sort_id)
  have gp: "g (weight p) = p" if "p \<in> set (points f a b)" for p
    using that by (auto simp: points_def g_def)
  have "set ds = set (points f a b)" using m by (rule mset_eq_setD)
  then have "map g (map weight ds) = ds"
    using gp by (auto intro: map_idI)
  moreover have "map g (map weight (points f a b)) = points f a b"
    using gp by (auto intro: map_idI)
  ultimately show ?thesis using w by simp
qed

lemma grow_calls_120:
  "grow_calls HeapPQueue_new (map Enqueue (points f 0 120)) = 1"
proof -
  have "shape_grows (0, 100) (map Enqueue (points f 0 120)) = 1" by code_simp
  then show ?thesis
    using grow_calls_shape [OF valid_new, of "map Enqueue (points f 0 120)"]
    by (simp add: HeapPQueue_new_def INITIAL_CAPACITY_def)
qed

subsection \<open>Ascending input, and the first child index that overflows\<close>












subsection \<open>Further facts about reachable states\<close>

lemma exec_size_bound:
  "valid q \<Longrightarrow> currentSize (exec q cs) \<le> currentSize q + length (filter is_enqueue cs)"
proof (induction cs arbitrary: q)
  case Nil
  then show ?case by simp
next
  case (Cons c cs)
  show ?case
  proof (cases "fst (call q c) = Inl OutOfBounds")
    case True
    then show ?thesis by (simp add: exec_Cons)
  next
    case False
    note v = call_valid [OF Cons.prems False]
    from Cons.IH [OF v] call_size [OF Cons.prems False] False show ?thesis
      by (simp add: exec_Cons split: if_splits)
  qed
qed

lemma filter_enqueue_map [simp]: "filter is_enqueue (map Enqueue xs) = map Enqueue xs"
  by (induction xs) simp_all

lemma filter_enqueue_replicate [simp]: "filter is_enqueue (replicate n Dequeue) = []"
  by (induction n) simp_all

lemma root_minimum:
  assumes "valid q" and "x \<in> set (live q)"
  shows "weight (heap q ! 0) \<le> weight x"
proof -
  have len: "currentSize q \<le> length (heap q)" and hp: "is_heap (currentSize q) (heap q)"
    using assms(1) by (simp_all add: valid_def)
  from assms(2) obtain i where "i < currentSize q" "x = heap q ! i"
    using len by (auto simp: live_def in_set_conv_nth)
  then show ?thesis using is_heap_root [OF hp, of i] by simp
qed

lemma access_empty_buffer: "load [] i = Inl OutOfBounds \<and> store [] i d = Inl OutOfBounds"
  by (simp add: load_def store_def)

section \<open>The claims\<close>




text \<open>
  C2. After every sequence of \<open>enqueue\<close> and \<open>dequeue\<close> calls on a freshly constructed
  queue (a call that raises leaves the state as it was; calls of \<open>peek\<close> may be mixed
  in), the min-heap property holds over the live part of the buffer: for every index
  \<open>i\<close> with \<open>1 \<le> i < currentSize\<close>, the weight at \<open>(i - 1) div 2\<close> is at most the weight
  at \<open>i\<close>. A sequence is completed when none of its calls has accessed the buffer
  outside its bounds; the state of a sequence that is not is the state before that call.
  Every sequence with at most \<open>2^30\<close> calls of \<open>enqueue\<close> is completed.
\<close>

theorem heap_property_invariant:
  "heap_property (exec HeapPQueue_new cs) \<and>
   (length (filter is_enqueue cs) \<le> 1073741824 \<longrightarrow>
      length (fst (run HeapPQueue_new cs)) = length cs \<and>
      Inl OutOfBounds \<notin> set (fst (run HeapPQueue_new cs)))"
proof -
  have "heap_property (exec HeapPQueue_new cs)"
    using reachable_valid [of cs] by (simp add: heap_property_is_heap valid_def)
  moreover have "length (fst (run HeapPQueue_new cs)) = length cs \<and>
      Inl OutOfBounds \<notin> set (fst (run HeapPQueue_new cs))"
    if "length (filter is_enqueue cs) \<le> 1073741824"
    using run_complete [OF valid_new, of cs] that by (simp add: HeapPQueue_new_def)
  ultimately show ?thesis by blast
qed

theorem heap_property_invariant_witness:
  "currentSize (exec HeapPQueue_new
     [Enqueue \<lparr>name = ''b'', weight = 2\<rparr>, Enqueue \<lparr>name = ''a'', weight = 1\<rparr>,
      Enqueue \<lparr>name = ''c'', weight = 3\<rparr>, Enqueue \<lparr>name = ''d'', weight = 0\<rparr>, Dequeue]) = 3 \<and>
   weight (heap (exec HeapPQueue_new
     [Enqueue \<lparr>name = ''b'', weight = 2\<rparr>, Enqueue \<lparr>name = ''a'', weight = 1\<rparr>,
      Enqueue \<lparr>name = ''c'', weight = 3\<rparr>, Enqueue \<lparr>name = ''d'', weight = 0\<rparr>, Dequeue]) ! parent 2)
   \<le> weight (heap (exec HeapPQueue_new
     [Enqueue \<lparr>name = ''b'', weight = 2\<rparr>, Enqueue \<lparr>name = ''a'', weight = 1\<rparr>,
      Enqueue \<lparr>name = ''c'', weight = 3\<rparr>, Enqueue \<lparr>name = ''d'', weight = 0\<rparr>, Dequeue]) ! 2) \<and>
   length (fst (run HeapPQueue_new
     [Enqueue \<lparr>name = ''b'', weight = 2\<rparr>, Enqueue \<lparr>name = ''a'', weight = 1\<rparr>,
      Enqueue \<lparr>name = ''c'', weight = 3\<rparr>, Enqueue \<lparr>name = ''d'', weight = 0\<rparr>, Dequeue])) = 5"
proof -
  let ?cs = "[Enqueue \<lparr>name = ''b'', weight = 2\<rparr>, Enqueue \<lparr>name = ''a'', weight = 1\<rparr>,
      Enqueue \<lparr>name = ''c'', weight = 3\<rparr>, Enqueue \<lparr>name = ''d'', weight = 0\<rparr>, Dequeue]"
  have n: "currentSize (exec HeapPQueue_new ?cs) = 3" by code_simp
  then have i: "2 \<in> {1..<currentSize (exec HeapPQueue_new ?cs)}" by simp
  have b: "length (filter is_enqueue ?cs) \<le> 1073741824" by simp
  have l: "length ?cs = 5" by simp
  note t = heap_property_invariant [of ?cs]
  from t i have "weight (heap (exec HeapPQueue_new ?cs) ! parent 2)
      \<le> weight (heap (exec HeapPQueue_new ?cs) ! 2)"
    unfolding heap_property_def by blast
  moreover from t b l have "length (fst (run HeapPQueue_new ?cs)) = 5" by metis
  ultimately show ?thesis using n by blast
qed

text \<open>
  C3. On a queue with \<open>currentSize = 0\<close>, \<open>dequeue\<close> and \<open>peek\<close> raise
  \<open>EmptyQueueError\<close> and leave the state as it was, so \<open>size()\<close> is still 0. No slot of
  the buffer is read or written before the error is raised: every access to a slot is
  checked against the buffer, a buffer without slots fails every access, and on such a
  buffer the two methods raise \<open>EmptyQueueError\<close> when \<open>currentSize = 0\<close> and end in the
  failed access when it is not. A freshly constructed queue has \<open>currentSize = 0\<close>, and
  so has a reachable queue after draining; draining a queue reached with at most \<open>2^30\<close>
  calls of \<open>enqueue\<close> returns.
\<close>

theorem empty_queue_errors:
  "(currentSize q = 0 \<longrightarrow>
      dequeue q = (Inl EmptyQueueError, q) \<and> peek q = (Inl EmptyQueueError, q) \<and>
      size_pq (snd (dequeue q)) = 0 \<and> size_pq (snd (peek q)) = 0) \<and>
   load [] i = Inl OutOfBounds \<and> store [] i d = Inl OutOfBounds \<and>
   fst (dequeue (q\<lparr>heap := []\<rparr>))
     = (if currentSize q = 0 then Inl EmptyQueueError else Inl OutOfBounds) \<and>
   fst (peek (q\<lparr>heap := []\<rparr>))
     = (if currentSize q = 0 then Inl EmptyQueueError else Inl OutOfBounds) \<and>
   currentSize HeapPQueue_new = 0 \<and>
   (fst (drain (exec HeapPQueue_new cs)) = Inr ds \<longrightarrow>
      currentSize (snd (drain (exec HeapPQueue_new cs))) = 0) \<and>
   (length (filter is_enqueue cs) \<le> 1073741824 \<longrightarrow>
      (\<exists>ds'. fst (drain (exec HeapPQueue_new cs)) = Inr ds'))"
proof -
  let ?s = "exec HeapPQueue_new cs"
  have v: "valid ?s" by (rule reachable_valid)
  have 1: "currentSize (snd (drain ?s)) = 0" if "fst (drain ?s) = Inr ds"
    using v that by (rule drain_size)
  have 2: "\<exists>ds'. fst (drain ?s) = Inr ds'" if "length (filter is_enqueue cs) \<le> 1073741824"
  proof -
    have "currentSize ?s \<le> 1073741824"
      using exec_size_bound [OF valid_new, of cs] that by (simp add: HeapPQueue_new_def)
    from drain_valid [OF v refl this] show ?thesis by auto
  qed
  have 3: "fst (dequeue (q\<lparr>heap := []\<rparr>))
     = (if currentSize q = 0 then Inl EmptyQueueError else Inl OutOfBounds)"
    by (simp add: dequeue_def isEmpty_def load_def)
  have 4: "fst (peek (q\<lparr>heap := []\<rparr>))
     = (if currentSize q = 0 then Inl EmptyQueueError else Inl OutOfBounds)"
    by (simp add: peek_def isEmpty_def load_def)
  have 5: "currentSize HeapPQueue_new = 0" by (simp add: HeapPQueue_new_def)
  have 6: "currentSize q = 0 \<longrightarrow>
      dequeue q = (Inl EmptyQueueError, q) \<and> peek q = (Inl EmptyQueueError, q) \<and>
      size_pq (snd (dequeue q)) = 0 \<and> size_pq (snd (peek q)) = 0"
    by (simp add: dequeue_empty peek_empty size_pq_def)
  show ?thesis using 1 2 3 4 5 6 access_empty_buffer [of i d] by blast
qed

theorem empty_queue_errors_witness:
  "currentSize HeapPQueue_new = 0 \<and>
   dequeue HeapPQueue_new = (Inl EmptyQueueError, HeapPQueue_new) \<and>
   peek HeapPQueue_new = (Inl EmptyQueueError, HeapPQueue_new) \<and>
   size_pq (snd (dequeue HeapPQueue_new)) = 0 \<and>
   fst (dequeue (HeapPQueue_new\<lparr>heap := []\<rparr>)) = Inl EmptyQueueError \<and>
   fst (peek (HeapPQueue_new\<lparr>heap := []\<rparr>)) = Inl EmptyQueueError \<and>
   fst (peek (HeapPQueue_new\<lparr>heap := [], currentSize := 1\<rparr>)) = Inl OutOfBounds \<and>
   fst (drain (exec HeapPQueue_new [Enqueue \<lparr>name = ''a'', weight = 4\<rparr>]))
     = Inr [\<lparr>name = ''a'', weight = 4\<rparr>] \<and>
   dequeue (snd (drain (exec HeapPQueue_new [Enqueue \<lparr>name = ''a'', weight = 4\<rparr>])))
     = (Inl EmptyQueueError, snd (drain (exec HeapPQueue_new [Enqueue \<lparr>name = ''a'', weight = 4\<rparr>])))"
proof -
  let ?cs = "[Enqueue \<lparr>name = ''a'', weight = 4\<rparr>]"
  let ?d = "snd (drain (exec HeapPQueue_new ?cs))"
  let ?a = "[\<lparr>name = ''a'', weight = 4\<rparr>]"
  have 0: "currentSize HeapPQueue_new = 0" by (simp add: HeapPQueue_new_def)
  have r: "fst (drain (exec HeapPQueue_new ?cs)) = Inr ?a" by code_simp
  have o: "fst (peek (HeapPQueue_new\<lparr>heap := [], currentSize := 1\<rparr>)) = Inl OutOfBounds"
    by code_simp
  have a: "dequeue HeapPQueue_new = (Inl EmptyQueueError, HeapPQueue_new) \<and>
           peek HeapPQueue_new = (Inl EmptyQueueError, HeapPQueue_new) \<and>
           size_pq (snd (dequeue HeapPQueue_new)) = 0"
    using empty_queue_errors [of HeapPQueue_new 0 default_DataPoint ?cs ?a] 0 by blast
  have e: "fst (dequeue (HeapPQueue_new\<lparr>heap := []\<rparr>)) = Inl EmptyQueueError \<and>
           fst (peek (HeapPQueue_new\<lparr>heap := []\<rparr>)) = Inl EmptyQueueError"
    using empty_queue_errors [of HeapPQueue_new 0 default_DataPoint ?cs ?a] 0 by simp
  have d: "currentSize ?d = 0"
    using empty_queue_errors [of HeapPQueue_new 0 default_DataPoint ?cs ?a] r by blast
  have "dequeue ?d = (Inl EmptyQueueError, ?d)"
    using empty_queue_errors [of ?d 0 default_DataPoint ?cs ?a] d by blast
  with 0 a e o r show ?thesis by blast
qed

text \<open>
  C4. From a freshly constructed queue, enqueuing 120 elements with weights 0..119
  makes exactly one growing reallocation (capacity 100 to 200); dequeuing 100 elements
  then returns the elements of weights 0..99 in ascending order and makes at least one
  shrinking reallocation (the capacity is 100 afterwards); enqueuing 30 more elements
  with weights 120..149 and draining returns exactly the elements of weights 100..149
  in ascending order and leaves the queue empty.
\<close>

theorem resize_scenario:
  "let s1 = exec HeapPQueue_new (map Enqueue (points f 0 120));
       s2 = exec s1 (replicate 100 Dequeue);
       s3 = exec s2 (map Enqueue (points f 120 150));
       s4 = exec s3 (replicate 50 Dequeue)
   in enqueue_all HeapPQueue_new (points f 0 120) = (Inr (), s1) \<and>
      grow_calls HeapPQueue_new (map Enqueue (points f 0 120)) = 1 \<and>
      capacity s1 = 200 \<and>
      dequeue_n s1 100 = (Inr (points f 0 100), s2) \<and>
      1 \<le> shrink_calls s1 (replicate 100 Dequeue) \<and>
      capacity s2 = 100 \<and>
      enqueue_all s2 (points f 120 150) = (Inr (), s3) \<and>
      drain s3 = (Inr (points f 100 150), s4) \<and>
      map weight (points f 100 150) = map int [100..<150] \<and>
      isEmpty s4"
proof -
  let ?c1 = "map Enqueue (points f 0 120)" and ?c2 = "replicate 100 Dequeue"
  let ?c3 = "map Enqueue (points f 120 150)"
  let ?s1 = "exec HeapPQueue_new ?c1"
  let ?s2 = "exec ?s1 ?c2"
  let ?s3 = "exec ?s2 ?c3"
  let ?s4 = "exec ?s3 (replicate 50 Dequeue)"
  have n0: "currentSize HeapPQueue_new = 0" "capacity HeapPQueue_new = 100"
    by (simp_all add: HeapPQueue_new_def INITIAL_CAPACITY_def)
  have v1: "valid ?s1" and v2: "valid ?s2" and v3: "valid ?s3"
    by (intro exec_valid valid_new)+
  \<comment> \<open>the first 120 calls of enqueue\<close>
  have b1: "currentSize HeapPQueue_new + length (points f 0 120) \<le> 1677721600"
    by (simp add: n0)
  from enqueue_all_exec [OF valid_new b1]
  have e1: "enqueue_all HeapPQueue_new (points f 0 120) = (Inr (), ?s1)"
    and n1: "currentSize ?s1 = 120" and m1: "mset (live ?s1) = mset (points f 0 120)"
    by (simp_all add: live_new n0)
  have g1: "grow_calls HeapPQueue_new ?c1 = 1" by (rule grow_calls_120)
  have "shape_exec (0, 100) ?c1 = (120, 200)" by code_simp
  then have c1: "capacity ?s1 = 200"
    using exec_shape [OF valid_new, of ?c1] by (simp add: n0)
  \<comment> \<open>the 100 calls of dequeue\<close>
  from dequeue_n_exec [OF v1, of 100] n1 obtain ds1 where
    d: "dequeue_n ?s1 100 = (Inr ds1, ?s2)" "length ds1 = 100" "currentSize ?s2 + 100 = 120"
      "mset (live ?s1) = mset ds1 + mset (live ?s2)" "sorted (map weight ds1)"
      "\<forall>d \<in> set ds1. \<forall>x \<in> set (live ?s2). weight d \<le> weight x"
    by auto
  let ?L = "sort_key weight (live ?s2)"
  have "sorted (map weight (ds1 @ ?L))"
    using d(5,6) by (auto simp: sorted_append)
  moreover have "mset (ds1 @ ?L) = mset (points f 0 120)"
    using d(4) m1 by simp
  ultimately have "ds1 @ ?L = points f 0 120" by (rule sorted_points_unique)
  then have "ds1 @ ?L = points f 0 100 @ points f 100 120"
    by (simp add: points_append [of 0 100 120])
  then have ds1: "ds1 = points f 0 100" and L: "?L = points f 100 120"
    using d(2) by simp_all
  have m2: "mset (live ?s2) = mset (points f 100 120)"
    using arg_cong [OF L, of mset] by simp
  have n2: "currentSize ?s2 = 20" using d(3) by simp
  have "shape_shrinks (120, 200) ?c2 = 6" by code_simp
  then have k2: "1 \<le> shrink_calls ?s1 ?c2"
    using shrink_calls_shape [OF v1, of ?c2] by (simp add: n1 c1)
  have "shape_exec (120, 200) ?c2 = (20, 100)" by code_simp
  then have c2: "capacity ?s2 = 100"
    using exec_shape [OF v1, of ?c2] by (simp add: n1 c1)
  \<comment> \<open>the 30 further calls of enqueue, and the drain\<close>
  have b3: "currentSize ?s2 + length (points f 120 150) \<le> 1677721600"
    by (simp add: n2)
  from enqueue_all_exec [OF v2 b3]
  have e3: "enqueue_all ?s2 (points f 120 150) = (Inr (), ?s3)"
    and n3: "currentSize ?s3 = 50"
    and m3: "mset (live ?s3) = mset (points f 120 150) + mset (points f 100 120)"
    by (simp_all add: n2 m2)
  have m3': "mset (live ?s3) = mset (points f 100 150)"
    unfolding m3 by (simp add: points_append [of 100 120 150])
  have "(50::nat) \<le> 1073741824" by simp
  from drain_valid [OF v3 n3 this] obtain ds where
    dr: "drain ?s3 = (Inr ds, ?s4)" "currentSize ?s4 = 0" "mset ds = mset (live ?s3)"
      "sorted (map weight ds)"
    by blast
  have "ds = points f 100 150"
    using dr(4) dr(3) [unfolded m3'] by (rule sorted_points_unique)
  with dr have d4: "drain ?s3 = (Inr (points f 100 150), ?s4)" "isEmpty ?s4"
    by (simp_all add: isEmpty_def)
  show ?thesis
    unfolding Let_def using e1 g1 c1 d(1) [unfolded ds1] k2 c2 e3 d4 weights_points [of f 100 150]
    by blast
qed

theorem resize_scenario_witness:
  "(let s1 = exec HeapPQueue_new (map Enqueue (points elem 0 120));
        s2 = exec s1 (replicate 100 Dequeue);
        s3 = exec s2 (map Enqueue (points elem 120 150));
        s4 = exec s3 (replicate 50 Dequeue)
    in enqueue_all HeapPQueue_new (points elem 0 120) = (Inr (), s1) \<and>
       grow_calls HeapPQueue_new (map Enqueue (points elem 0 120)) = 1 \<and>
       capacity s1 = 200 \<and>
       dequeue_n s1 100 = (Inr (points elem 0 100), s2) \<and>
       1 \<le> shrink_calls s1 (replicate 100 Dequeue) \<and>
       capacity s2 = 100 \<and>
       enqueue_all s2 (points elem 120 150) = (Inr (), s3) \<and>
       drain s3 = (Inr (points elem 100 150), s4) \<and>
       map weight (points elem 100 150) = map int [100..<150] \<and>
       isEmpty s4) \<and>
   points elem 99 101 = [\<lparr>name = ''elem99'', weight = 99\<rparr>, \<lparr>name = ''elem100'', weight = 100\<rparr>]"
proof -
  have "points elem 99 101
        = [\<lparr>name = ''elem99'', weight = 99\<rparr>, \<lparr>name = ''elem100'', weight = 100\<rparr>]"
    by code_simp
  with resize_scenario [of elem] show ?thesis by blast
qed

text \<open>
  With "at least two" growing reallocations for the first 120 calls the statement fails:
  the capacity starts at 100, so only the 101st call of \<open>enqueue\<close> finds the buffer full.
\<close>

theorem two_grows_counterexample:
  "\<not> 2 \<le> grow_calls HeapPQueue_new (map Enqueue (points elem 0 120))"
  by (simp add: grow_calls_120)




text \<open>
  C6. In every reachable state with \<open>currentSize > 0\<close>, \<open>peek\<close> returns an element of
  the live part of the buffer whose weight is at most the weight of every live element,
  and the state after the call is the state before it.
\<close>

theorem peek_minimum:
  assumes "0 < currentSize (exec HeapPQueue_new cs)"
  shows "peek (exec HeapPQueue_new cs)
           = (Inr (heap (exec HeapPQueue_new cs) ! 0), exec HeapPQueue_new cs) \<and>
         heap (exec HeapPQueue_new cs) ! 0 \<in> set (live (exec HeapPQueue_new cs)) \<and>
         (\<forall>x \<in> set (live (exec HeapPQueue_new cs)).
            weight (heap (exec HeapPQueue_new cs) ! 0) \<le> weight x)"
proof -
  let ?s = "exec HeapPQueue_new cs"
  have v: "valid ?s" by (rule reachable_valid)
  then have len: "currentSize ?s \<le> length (heap ?s)" by (simp add: valid_def)
  then have "heap ?s ! 0 \<in> set (live ?s)" by (rule root_live [OF assms])
  moreover have "\<forall>x \<in> set (live ?s). weight (heap ?s ! 0) \<le> weight x"
    using root_minimum [OF v] by blast
  ultimately show ?thesis using peek_nonempty [OF assms len] by simp
qed

theorem peek_minimum_witness:
  "0 < currentSize (exec HeapPQueue_new
         [Enqueue \<lparr>name = ''b'', weight = 2\<rparr>, Enqueue \<lparr>name = ''a'', weight = 1\<rparr>,
          Enqueue \<lparr>name = ''c'', weight = 3\<rparr>]) \<and>
   fst (peek (exec HeapPQueue_new
         [Enqueue \<lparr>name = ''b'', weight = 2\<rparr>, Enqueue \<lparr>name = ''a'', weight = 1\<rparr>,
          Enqueue \<lparr>name = ''c'', weight = 3\<rparr>])) = Inr \<lparr>name = ''a'', weight = 1\<rparr> \<and>
   snd (peek (exec HeapPQueue_new
         [Enqueue \<lparr>name = ''b'', weight = 2\<rparr>, Enqueue \<lparr>name = ''a'', weight = 1\<rparr>,
          Enqueue \<lparr>name = ''c'', weight = 3\<rparr>]))
   = exec HeapPQueue_new
         [Enqueue \<lparr>name = ''b'', weight = 2\<rparr>, Enqueue \<lparr>name = ''a'', weight = 1\<rparr>,
          Enqueue \<lparr>name = ''c'', weight = 3\<rparr>] \<and>
   weight (heap (exec HeapPQueue_new
         [Enqueue \<lparr>name = ''b'', weight = 2\<rparr>, Enqueue \<lparr>name = ''a'', weight = 1\<rparr>,
          Enqueue \<lparr>name = ''c'', weight = 3\<rparr>]) ! 0) \<le> weight \<lparr>name = ''c'', weight = 3\<rparr>"
proof -
  let ?cs = "[Enqueue \<lparr>name = ''b'', weight = 2\<rparr>, Enqueue \<lparr>name = ''a'', weight = 1\<rparr>,
          Enqueue \<lparr>name = ''c'', weight = 3\<rparr>]"
  have p: "0 < currentSize (exec HeapPQueue_new ?cs)" by code_simp
  have r: "heap (exec HeapPQueue_new ?cs) ! 0 = \<lparr>name = ''a'', weight = 1\<rparr>" by code_simp
  have m: "\<lparr>name = ''c'', weight = 3\<rparr> \<in> set (live (exec HeapPQueue_new ?cs))" by code_simp
  from peek_minimum [OF p] have
    1: "peek (exec HeapPQueue_new ?cs) = (Inr (heap (exec HeapPQueue_new ?cs) ! 0), exec HeapPQueue_new ?cs)"
    and 2: "\<forall>x \<in> set (live (exec HeapPQueue_new ?cs)). weight (heap (exec HeapPQueue_new ?cs) ! 0) \<le> weight x"
    by blast+
  from 2 m have "weight (heap (exec HeapPQueue_new ?cs) ! 0) \<le> weight \<lparr>name = ''c'', weight = 3\<rparr>"
    by blast
  with p 1 r show ?thesis by simp
qed

text \<open>
  C7. After any sequence of \<open>enqueue\<close>, \<open>dequeue\<close> and \<open>peek\<close> calls on a freshly
  constructed queue, \<open>size()\<close> is the number of \<open>enqueue\<close> calls that returned minus the
  number of \<open>dequeue\<close> calls that returned rather than raised; in a sequence with at most
  \<open>2^30\<close> calls of \<open>enqueue\<close> each of them returns; and in every state \<open>isEmpty()\<close> is
  true exactly when \<open>size()\<close> is 0. Every point of a sequence is the end of one of its
  prefixes.
\<close>

theorem size_accounting:
  "int (size_pq (snd (run HeapPQueue_new cs)))
     = int (enqueues_returned cs (fst (run HeapPQueue_new cs)))
       - int (dequeues_returned cs (fst (run HeapPQueue_new cs))) \<and>
   (length (filter is_enqueue cs) \<le> 1073741824 \<longrightarrow>
      enqueues_returned cs (fst (run HeapPQueue_new cs)) = length (filter is_enqueue cs)) \<and>
   isEmpty q = (size_pq q = 0)"
proof -
  have n0: "currentSize HeapPQueue_new = 0" by (simp add: HeapPQueue_new_def)
  have "enqueues_returned cs (fst (run HeapPQueue_new cs)) = length (filter is_enqueue cs)"
    if "length (filter is_enqueue cs) \<le> 1073741824"
    using run_complete [OF valid_new, of cs] that n0 by simp
  with run_counts [OF valid_new, of cs] n0 show ?thesis
    by (simp add: size_pq_def isEmpty_def)
qed

theorem size_accounting_witness:
  "fst (run HeapPQueue_new
      [Enqueue \<lparr>name = ''a'', weight = 4\<rparr>, Dequeue, Dequeue, Enqueue \<lparr>name = ''b'', weight = 7\<rparr>,
       Enqueue \<lparr>name = ''c'', weight = 5\<rparr>, Peek])
   = [Inr None, Inr (Some \<lparr>name = ''a'', weight = 4\<rparr>), Inl EmptyQueueError, Inr None, Inr None,
      Inr (Some \<lparr>name = ''c'', weight = 5\<rparr>)] \<and>
   int (size_pq (snd (run HeapPQueue_new
      [Enqueue \<lparr>name = ''a'', weight = 4\<rparr>, Dequeue, Dequeue, Enqueue \<lparr>name = ''b'', weight = 7\<rparr>,
       Enqueue \<lparr>name = ''c'', weight = 5\<rparr>, Peek]))) = 3 - 1"
proof -
  let ?cs = "[Enqueue \<lparr>name = ''a'', weight = 4\<rparr>, Dequeue, Dequeue,
              Enqueue \<lparr>name = ''b'', weight = 7\<rparr>, Enqueue \<lparr>name = ''c'', weight = 5\<rparr>, Peek]"
  have r: "fst (run HeapPQueue_new ?cs)
     = [Inr None, Inr (Some \<lparr>name = ''a'', weight = 4\<rparr>), Inl EmptyQueueError, Inr None, Inr None,
        Inr (Some \<lparr>name = ''c'', weight = 5\<rparr>)]"
    by code_simp
  have "enqueues_returned ?cs (fst (run HeapPQueue_new ?cs)) = 3"
    unfolding r by (simp add: enqueues_returned_def)
  moreover have "dequeues_returned ?cs (fst (run HeapPQueue_new ?cs)) = 1"
    unfolding r by (simp add: dequeues_returned_def)
  ultimately show ?thesis
    using size_accounting [of ?cs undefined] r by simp
qed

text \<open>
  C8. In every state reachable from construction by \<open>enqueue\<close> and \<open>dequeue\<close> calls
  (and calls of \<open>peek\<close>), the capacity is at least the initial capacity, also when the
  queue is empty.
\<close>

theorem capacity_floor:
  "INITIAL_CAPACITY \<le> capacity (exec HeapPQueue_new cs) \<and>
   capacity HeapPQueue_new = INITIAL_CAPACITY"
  using reachable_valid [of cs] by (simp add: valid_def HeapPQueue_new_def)

theorem capacity_floor_witness:
  "isEmpty (exec HeapPQueue_new [Enqueue \<lparr>name = ''a'', weight = 4\<rparr>, Dequeue]) \<and>
   INITIAL_CAPACITY \<le> capacity (exec HeapPQueue_new [Enqueue \<lparr>name = ''a'', weight = 4\<rparr>, Dequeue])"
proof -
  have "isEmpty (exec HeapPQueue_new [Enqueue \<lparr>name = ''a'', weight = 4\<rparr>, Dequeue])"
    by code_simp
  with capacity_floor [of "[Enqueue \<lparr>name = ''a'', weight = 4\<rparr>, Dequeue]"]
  show ?thesis by simp
qed



text \<open>
  C10. A freshly constructed queue has \<open>currentSize\<close> 0, capacity exactly 100, grow
  factor exactly 2 and shrink threshold exactly 1/4; and none of \<open>enqueue\<close>,
  \<open>dequeue\<close>, \<open>peek\<close>, \<open>resize\<close>, \<open>bubbleUp\<close> and \<open>bubbleDown\<close>, called in any
  state, nor any sequence of calls, changes the grow factor or the shrink threshold.
\<close>

theorem construction_parameters:
  "currentSize HeapPQueue_new = 0 \<and> capacity HeapPQueue_new = 100 \<and>
   growFactor HeapPQueue_new = 2 \<and> shrinkThreshold HeapPQueue_new = 1 / 4 \<and>
   growFactor (snd (enqueue q d)) = growFactor q \<and>
   shrinkThreshold (snd (enqueue q d)) = shrinkThreshold q \<and>
   growFactor (snd (dequeue q)) = growFactor q \<and>
   shrinkThreshold (snd (dequeue q)) = shrinkThreshold q \<and>
   growFactor (snd (peek q)) = growFactor q \<and>
   shrinkThreshold (snd (peek q)) = shrinkThreshold q \<and>
   growFactor (snd (resize q n)) = growFactor q \<and>
   shrinkThreshold (snd (resize q n)) = shrinkThreshold q \<and>
   growFactor (snd (bubbleUp q k)) = growFactor q \<and>
   shrinkThreshold (snd (bubbleUp q k)) = shrinkThreshold q \<and>
   growFactor (snd (bubbleDown q k)) = growFactor q \<and>
   shrinkThreshold (snd (bubbleDown q k)) = shrinkThreshold q \<and>
   growFactor (exec q cs) = growFactor q \<and>
   shrinkThreshold (exec q cs) = shrinkThreshold q \<and>
   growFactor (exec HeapPQueue_new cs) = 2 \<and>
   shrinkThreshold (exec HeapPQueue_new cs) = 1 / 4"
proof -
  have "growFactor (exec HeapPQueue_new cs) = 2 \<and> shrinkThreshold (exec HeapPQueue_new cs) = 1 / 4"
    using exec_factors [of HeapPQueue_new cs] by (simp add: HeapPQueue_new_def)
  moreover have "growFactor (snd (peek q)) = growFactor q \<and>
                 shrinkThreshold (snd (peek q)) = shrinkThreshold q"
    by (simp add: peek_def)
  moreover have "currentSize HeapPQueue_new = 0 \<and> capacity HeapPQueue_new = 100 \<and>
                 growFactor HeapPQueue_new = 2 \<and> shrinkThreshold HeapPQueue_new = 1 / 4"
    by (simp add: HeapPQueue_new_def INITIAL_CAPACITY_def)
  ultimately show ?thesis
    using enqueue_factors [of q d] dequeue_factors [of q] resize_factors [of q n]
      bubbleUp_factors [of q k] bubbleDown_factors [of q k] exec_factors [of q cs]
    by simp
qed

theorem construction_parameters_witness:
  "growFactor (exec HeapPQueue_new
      [Enqueue \<lparr>name = ''a'', weight = 4\<rparr>, Dequeue, Dequeue, Enqueue \<lparr>name = ''b'', weight = -1\<rparr>]) = 2 \<and>
   shrinkThreshold (exec HeapPQueue_new
      [Enqueue \<lparr>name = ''a'', weight = 4\<rparr>, Dequeue, Dequeue, Enqueue \<lparr>name = ''b'', weight = -1\<rparr>]) = 1 / 4 \<and>
   capacity HeapPQueue_new = 100 \<and> currentSize HeapPQueue_new = 0"
  using construction_parameters
    [of HeapPQueue_new undefined undefined 0
        "[Enqueue \<lparr>name = ''a'', weight = 4\<rparr>, Dequeue, Dequeue, Enqueue \<lparr>name = ''b'', weight = -1\<rparr>]"]
  by simp

end
